theory Spec2Isabelle
  imports Main "HOL-Library.Word"
begin

unbundle bit_operations_syntax

section \<open>The two-level TLB of \<open>tlb.c\<close>\<close>

subsection \<open>Data model\<close>

text \<open>
  \<open>va_t\<close> and \<open>pa_dram_t\<close> are declared in a header outside \<open>tlb.c\<close>; both are taken as
  unsigned 64-bit integers, like the \<open>uint64_t\<close> counters of the file. Arithmetic on them
  wraps around, as in C.
\<close>

type_synonym uint64_t = "64 word"
type_synonym va_t = "64 word"
type_synonym pa_dram_t = "64 word"

datatype op_t = OP_READ | OP_WRITE

record tlb_entry_t =
  valid :: bool
  dirty :: bool
  last_access :: uint64_t
  virtual_page_number :: va_t
  physical_page_number :: pa_dram_t

text \<open>
  The compile-time constants of \<open>constants.h\<close>, which \<open>tlb.c\<close> only reads. They are
  parameters of every operation.
\<close>

record constants =
  TLB_L1_SIZE :: nat
  TLB_L2_SIZE :: nat
  PAGE_SIZE_BITS :: nat
  TLB_L1_LATENCY_NS :: nat
  TLB_L2_LATENCY_NS :: nat

text \<open>
  The calls that \<open>tlb.c\<close> makes to its collaborators (\<open>clock.h\<close>, \<open>page_table.h\<close>,
  \<open>memory.h\<close>), in the order in which they are made. The collaborators are taken not to
  touch the variables of \<open>tlb.c\<close> while they run.
\<close>

datatype event =
    IncrementTime nat
  | PageTableTranslate va_t op_t
  | WriteBackTlbEntry pa_dram_t

text \<open>
  The global variables of \<open>tlb.c\<close>. Each array is a list whose length is the array's size,
  so a loop \<open>for (i = 0; i < SIZE; i++)\<close> is a recursion along the list.
\<close>

record tlb_state =
  tlb_l1 :: "tlb_entry_t list"
  tlb_l2 :: "tlb_entry_t list"
  tlb_l1_hits :: uint64_t
  tlb_l1_misses :: uint64_t
  tlb_l1_invalidations :: uint64_t
  tlb_l2_hits :: uint64_t
  tlb_l2_misses :: uint64_t
  tlb_l2_invalidations :: uint64_t
  access_counter :: uint64_t
  events :: "event list"

subsection \<open>\<open>tlb_init\<close>\<close>

text \<open>What \<open>memset(.., 0, ..)\<close> leaves in one array element.\<close>

definition zero_entry :: tlb_entry_t where
  "zero_entry = \<lparr>valid = False, dirty = False, last_access = 0,
                 virtual_page_number = 0, physical_page_number = 0\<rparr>"

text \<open>
  \<open>tlb_init\<close> clears both arrays and the six statistics. It has no assignment to
  \<open>access_counter\<close>, whose only zeroing is the initialiser of its declaration.
\<close>

definition tlb_init :: "constants \<Rightarrow> tlb_state \<Rightarrow> tlb_state" where
  "tlb_init cfg s =
     s\<lparr>tlb_l1 := replicate (TLB_L1_SIZE cfg) zero_entry,
       tlb_l2 := replicate (TLB_L2_SIZE cfg) zero_entry,
       tlb_l1_hits := 0,
       tlb_l1_misses := 0,
       tlb_l1_invalidations := 0,
       tlb_l2_hits := 0,
       tlb_l2_misses := 0,
       tlb_l2_invalidations := 0\<rparr>"

subsection \<open>Scanning an array\<close>

text \<open>
  The loops of the file that leave at the first slot with some property (by \<open>return\<close> or
  \<open>break\<close>): \<open>i\<close> is the loop counter, the list is the part of the array not yet visited.
\<close>

fun first_index :: "('a \<Rightarrow> bool) \<Rightarrow> nat \<Rightarrow> 'a list \<Rightarrow> nat option" where
  "first_index P i [] = None"
| "first_index P i (e # es) = (if P e then Some i else first_index P (Suc i) es)"

text \<open>The test \<open>tlb[i].valid && tlb[i].virtual_page_number == vpn\<close> of the four lookup loops.\<close>

definition maps_vpn :: "va_t \<Rightarrow> tlb_entry_t \<Rightarrow> bool" where
  "maps_vpn vpn e \<longleftrightarrow> valid e \<and> virtual_page_number e = vpn"

definition tlb_lookup :: "tlb_entry_t list \<Rightarrow> va_t \<Rightarrow> nat option" where
  "tlb_lookup tlb vpn = first_index (maps_vpn vpn) 0 tlb"

subsection \<open>\<open>tlb_invalidate\<close>\<close>

definition tlb_invalidate :: "constants \<Rightarrow> tlb_state \<Rightarrow> va_t \<Rightarrow> tlb_state" where
  "tlb_invalidate cfg s vpn =
     (let s1 = (case tlb_lookup (tlb_l1 s) vpn of
                  None \<Rightarrow> s
                | Some i \<Rightarrow>
                    s\<lparr>tlb_l1_invalidations := tlb_l1_invalidations s + 1,
                      tlb_l1 := (tlb_l1 s)[i := (tlb_l1 s ! i)\<lparr>valid := False\<rparr>]\<rparr>)
      in (case tlb_lookup (tlb_l2 s1) vpn of
            None \<Rightarrow> s1
          | Some i \<Rightarrow>
              s1\<lparr>tlb_l2_invalidations := tlb_l2_invalidations s1 + 1,
                 events := events s1 @
                   (if dirty (tlb_l2 s1 ! i)
                    then [WriteBackTlbEntry
                            (push_bit (PAGE_SIZE_BITS cfg) (physical_page_number (tlb_l2 s1 ! i)))]
                    else []),
                 tlb_l2 := (tlb_l2 s1)[i := (tlb_l2 s1 ! i)\<lparr>valid := False\<rparr>]\<rparr>))"

subsection \<open>\<open>find_lru_victim_l1\<close> and \<open>find_lru_victim_l2\<close>\<close>

text \<open>
  The second loop of the two functions, from \<open>i = 1\<close>: \<open>lru_index\<close> and \<open>oldest_time\<close> are
  the loop's variables.
\<close>

fun oldest_scan :: "nat \<Rightarrow> tlb_entry_t list \<Rightarrow> nat \<Rightarrow> uint64_t \<Rightarrow> nat" where
  "oldest_scan i [] lru_index oldest_time = lru_index"
| "oldest_scan i (e # es) lru_index oldest_time =
     (if last_access e < oldest_time
      then oldest_scan (Suc i) es i (last_access e)
      else oldest_scan (Suc i) es lru_index oldest_time)"

text \<open>
  The two functions have the same body, one over each array. The sizes are positive
  constants, so slot 0 exists where \<open>tlb[0].last_access\<close> is read.
\<close>

definition find_lru_victim :: "tlb_entry_t list \<Rightarrow> nat" where
  "find_lru_victim tlb =
     (case first_index (\<lambda>e. \<not> valid e) 0 tlb of
        Some i \<Rightarrow> i
      | None \<Rightarrow> oldest_scan 1 (drop 1 tlb) 0 (last_access (tlb ! 0)))"

definition find_lru_victim_l1 :: "tlb_state \<Rightarrow> nat" where
  "find_lru_victim_l1 s = find_lru_victim (tlb_l1 s)"

definition find_lru_victim_l2 :: "tlb_state \<Rightarrow> nat" where
  "find_lru_victim_l2 s = find_lru_victim (tlb_l2 s)"

subsection \<open>\<open>tlb_translate\<close>\<close>

text \<open>
  The loop that runs when the L2 victim is the slot \<open>i\<close> of the hit: \<open>j\<close> is the loop
  counter, \<open>l2_pos\<close> and \<open>oldest_time\<close> its variables.
\<close>

fun rescan :: "nat \<Rightarrow> tlb_entry_t list \<Rightarrow> nat \<Rightarrow> nat \<Rightarrow> uint64_t \<Rightarrow> nat" where
  "rescan j [] i l2_pos oldest_time = l2_pos"
| "rescan j (e # es) i l2_pos oldest_time =
     (if last_access e < oldest_time
      then rescan (Suc j) es i (if j \<noteq> i then j else l2_pos) (last_access e)
      else rescan (Suc j) es i l2_pos oldest_time)"

text \<open>The slot that receives a demoted L1 victim after a hit in slot \<open>i\<close> of L2.\<close>

definition demote_pos :: "tlb_entry_t list \<Rightarrow> nat \<Rightarrow> nat" where
  "demote_pos l2 i =
     (let l2_pos = find_lru_victim l2
      in if l2_pos = i
         then rescan 1 (drop 1 l2) i l2_pos (last_access (l2 ! 0))
         else l2_pos)"

text \<open>
  What both hit branches do to the entry they found: \<open>last_access\<close> becomes the
  incremented counter \<open>t\<close>, and a write sets \<open>dirty\<close>.
\<close>

definition touch :: "uint64_t \<Rightarrow> op_t \<Rightarrow> tlb_entry_t \<Rightarrow> tlb_entry_t" where
  "touch t op e = (if op = OP_WRITE then e\<lparr>last_access := t, dirty := True\<rparr>
                   else e\<lparr>last_access := t\<rparr>)"

text \<open>Step 1, the body of the first loop at a hit in slot \<open>i\<close> of L1.\<close>

definition l1_hit ::
  "constants \<Rightarrow> tlb_state \<Rightarrow> nat \<Rightarrow> op_t \<Rightarrow> pa_dram_t \<Rightarrow> pa_dram_t \<times> tlb_state" where
  "l1_hit cfg s i op page_offset =
     (let c = access_counter s + 1;
          l1' = (tlb_l1 s)[i := touch c op (tlb_l1 s ! i)]
      in (push_bit (PAGE_SIZE_BITS cfg) (physical_page_number (l1' ! i)) OR page_offset,
          s\<lparr>tlb_l1_hits := tlb_l1_hits s + 1,
            access_counter := c,
            tlb_l1 := l1',
            events := events s @ [IncrementTime (TLB_L1_LATENCY_NS cfg)]\<rparr>))"

text \<open>
  Step 2, the body of the second loop at a hit in slot \<open>i\<close> of L2. First the entry is
  refreshed; \<open>refreshed_l2\<close> is the array at that point, on which the victim functions run.
\<close>

definition refreshed_l2 :: "tlb_state \<Rightarrow> nat \<Rightarrow> op_t \<Rightarrow> tlb_entry_t list" where
  "refreshed_l2 s i op = (tlb_l2 s)[i := touch (access_counter s + 1) op (tlb_l2 s ! i)]"

text \<open>
  Then a valid and dirty L1 victim is copied into the L2 slot \<open>demote_pos\<close>, slot \<open>i\<close> of
  L2 is copied over the L1 victim, its \<open>last_access\<close> is set again, and the result is read
  from \<open>tlb_l2[i]\<close>.
\<close>

definition l2_hit ::
  "constants \<Rightarrow> tlb_state \<Rightarrow> nat \<Rightarrow> op_t \<Rightarrow> pa_dram_t \<Rightarrow> pa_dram_t \<times> tlb_state" where
  "l2_hit cfg s i op page_offset =
     (let c = access_counter s + 1;
          l2a = refreshed_l2 s i op;
          l1_pos = find_lru_victim (tlb_l1 s);
          victim = tlb_l1 s ! l1_pos;
          l2b = (if valid victim \<and> dirty victim
                 then l2a[demote_pos l2a i := victim]
                 else l2a);
          l1' = (tlb_l1 s)[l1_pos := l2b ! i];
          l2c = l2b[i := (l2b ! i)\<lparr>last_access := c\<rparr>]
      in (push_bit (PAGE_SIZE_BITS cfg) (physical_page_number (l2c ! i)) OR page_offset,
          s\<lparr>tlb_l2_hits := tlb_l2_hits s + 1,
            access_counter := c,
            tlb_l1 := l1',
            tlb_l2 := l2c,
            events := events s @ [IncrementTime (TLB_L2_LATENCY_NS cfg)]\<rparr>))"

text \<open>
  Step 3, after both loops have missed: the page table is asked, and its answer is
  inserted into L2 and then into L1. \<open>page_table_translate\<close> is the collaborator's function.
\<close>

definition miss_fill ::
  "constants \<Rightarrow> (va_t \<Rightarrow> op_t \<Rightarrow> pa_dram_t) \<Rightarrow> tlb_state \<Rightarrow> va_t \<Rightarrow> op_t \<Rightarrow> va_t
     \<Rightarrow> pa_dram_t \<times> tlb_state" where
  "miss_fill cfg page_table_translate s virtual_address op vpn =
     (let physical_address = page_table_translate virtual_address op;
          ppn = drop_bit (PAGE_SIZE_BITS cfg) physical_address;
          l2_pos = find_lru_victim (tlb_l2 s);
          old = tlb_l2 s ! l2_pos;
          write_back = (if valid old \<and> dirty old
                        then [WriteBackTlbEntry
                                (push_bit (PAGE_SIZE_BITS cfg) (physical_page_number old))]
                        else []);
          t2 = access_counter s + 1;
          l2' = (tlb_l2 s)[l2_pos := old\<lparr>valid := True, virtual_page_number := vpn,
                   physical_page_number := ppn, dirty := (op = OP_WRITE), last_access := t2\<rparr>];
          l1_pos = find_lru_victim (tlb_l1 s);
          t1 = t2 + 1;
          l1' = (tlb_l1 s)[l1_pos := (tlb_l1 s ! l1_pos)\<lparr>valid := True,
                   virtual_page_number := vpn, physical_page_number := ppn,
                   dirty := (op = OP_WRITE), last_access := t1\<rparr>]
      in (physical_address,
          s\<lparr>tlb_l2_misses := tlb_l2_misses s + 1,
            access_counter := t1,
            tlb_l1 := l1',
            tlb_l2 := l2',
            events := events s @
              [IncrementTime (TLB_L2_LATENCY_NS cfg), PageTableTranslate virtual_address op] @
              write_back\<rparr>))"

text \<open>The state between the two lookup loops, after a miss in L1.\<close>

definition l1_miss :: "constants \<Rightarrow> tlb_state \<Rightarrow> tlb_state" where
  "l1_miss cfg s =
     s\<lparr>tlb_l1_misses := tlb_l1_misses s + 1,
       events := events s @ [IncrementTime (TLB_L1_LATENCY_NS cfg)]\<rparr>"

definition tlb_translate ::
  "constants \<Rightarrow> (va_t \<Rightarrow> op_t \<Rightarrow> pa_dram_t) \<Rightarrow> tlb_state \<Rightarrow> va_t \<Rightarrow> op_t
     \<Rightarrow> pa_dram_t \<times> tlb_state" where
  "tlb_translate cfg page_table_translate s virtual_address op =
     (let vpn = drop_bit (PAGE_SIZE_BITS cfg) virtual_address;
          page_offset = virtual_address AND (push_bit (PAGE_SIZE_BITS cfg) 1 - 1)
      in case tlb_lookup (tlb_l1 s) vpn of
           Some i \<Rightarrow> l1_hit cfg s i op page_offset
         | None \<Rightarrow>
             (case tlb_lookup (tlb_l2 s) vpn of
                Some i \<Rightarrow> l2_hit cfg (l1_miss cfg s) i op page_offset
              | None \<Rightarrow> miss_fill cfg page_table_translate (l1_miss cfg s) virtual_address op vpn))"

subsection \<open>Runs\<close>

text \<open>
  A call of one of the two operations. A \<open>Translate\<close> carries the address the page table
  answers with if it is asked.
\<close>

datatype tlb_call = Translate va_t op_t pa_dram_t | Invalidate va_t

fun step :: "constants \<Rightarrow> tlb_state \<Rightarrow> tlb_call \<Rightarrow> tlb_state" where
  "step cfg s (Translate va op pa) = snd (tlb_translate cfg (\<lambda>_ _. pa) s va op)"
| "step cfg s (Invalidate vpn) = tlb_invalidate cfg s vpn"

definition exec :: "constants \<Rightarrow> tlb_state \<Rightarrow> tlb_call list \<Rightarrow> tlb_state" where
  "exec cfg s calls = foldl (step cfg) s calls"

text \<open>
  The example configuration of the specification: two L1 slots, four L2 slots, 4 KiB pages.
  The latencies are arbitrary.
\<close>

definition example_cfg :: constants where
  "example_cfg = \<lparr>TLB_L1_SIZE = 2, TLB_L2_SIZE = 4, PAGE_SIZE_BITS = 12,
                   TLB_L1_LATENCY_NS = 1, TLB_L2_LATENCY_NS = 10\<rparr>"

text \<open>The variables at program start: static storage is zero and nothing has been called.\<close>

definition boot :: "constants \<Rightarrow> tlb_state" where
  "boot cfg =
     \<lparr>tlb_l1 = replicate (TLB_L1_SIZE cfg) zero_entry,
      tlb_l2 = replicate (TLB_L2_SIZE cfg) zero_entry,
      tlb_l1_hits = 0, tlb_l1_misses = 0, tlb_l1_invalidations = 0,
      tlb_l2_hits = 0, tlb_l2_misses = 0, tlb_l2_invalidations = 0,
      access_counter = 0, events = []\<rparr>"

subsection \<open>Vocabulary of the properties\<close>

text \<open>
  What the replacement policy is to return for an array: the first invalid slot if there is
  one, otherwise the slot with the smallest \<open>last_access\<close>, the lowest such index on a tie.
\<close>

definition is_lru_choice :: "tlb_entry_t list \<Rightarrow> nat \<Rightarrow> bool" where
  "is_lru_choice tlb k \<longleftrightarrow>
     k < length tlb \<and>
     (if \<exists>j\<in>{0..<length tlb}. \<not> valid (tlb ! j)
      then \<not> valid (tlb ! k) \<and> (\<forall>j\<in>{0..<k}. valid (tlb ! j))
      else (\<forall>j\<in>{0..<length tlb}. last_access (tlb ! k) \<le> last_access (tlb ! j)) \<and>
           (\<forall>j\<in>{0..<k}. last_access (tlb ! k) < last_access (tlb ! j)))"

text \<open>The arguments of the write-back calls among the collaborator calls, in order.\<close>

fun write_backs :: "event list \<Rightarrow> pa_dram_t list" where
  "write_backs [] = []"
| "write_backs (WriteBackTlbEntry pa # evs) = pa # write_backs evs"
| "write_backs (IncrementTime n # evs) = write_backs evs"
| "write_backs (PageTableTranslate va op # evs) = write_backs evs"

text \<open>Where the two lookup loops of \<open>tlb_translate\<close> stop for a page number.\<close>

datatype hit = HitL1 nat | HitL2 nat | Miss

definition probe :: "tlb_state \<Rightarrow> va_t \<Rightarrow> hit" where
  "probe s vpn =
     (case tlb_lookup (tlb_l1 s) vpn of
        Some i \<Rightarrow> HitL1 i
      | None \<Rightarrow> (case tlb_lookup (tlb_l2 s) vpn of Some i \<Rightarrow> HitL2 i | None \<Rightarrow> Miss))"

fun dirty_at :: "tlb_state \<Rightarrow> hit \<Rightarrow> bool" where
  "dirty_at s (HitL1 i) = dirty (tlb_l1 s ! i)"
| "dirty_at s (HitL2 i) = dirty (tlb_l2 s ! i)"
| "dirty_at s Miss = False"

text \<open>Two entries that agree on every field other than \<open>valid\<close>.\<close>

definition same_but_valid :: "tlb_entry_t \<Rightarrow> tlb_entry_t \<Rightarrow> bool" where
  "same_but_valid e e' \<longleftrightarrow>
     dirty e' = dirty e \<and> last_access e' = last_access e \<and>
     virtual_page_number e' = virtual_page_number e \<and>
     physical_page_number e' = physical_page_number e"

text \<open>
  The frame of an invalidation of \<open>vpn\<close> on one array: no slot changes in a field other
  than \<open>valid\<close>, a slot that does not map \<open>vpn\<close> does not change at all, and at most one
  slot changes.
\<close>

definition invalidate_frame :: "va_t \<Rightarrow> tlb_entry_t list \<Rightarrow> tlb_entry_t list \<Rightarrow> bool" where
  "invalidate_frame vpn old new \<longleftrightarrow>
     length new = length old \<and>
     (\<forall>j\<in>{0..<length old}.
        same_but_valid (old ! j) (new ! j) \<and>
        (\<not> maps_vpn vpn (old ! j) \<longrightarrow> new ! j = old ! j)) \<and>
     (\<forall>j\<in>{0..<length old}. \<forall>k\<in>{0..<length old}.
        new ! j \<noteq> old ! j \<and> new ! k \<noteq> old ! k \<longrightarrow> j = k)"

text \<open>
  The demotion after a hit in slot \<open>i\<close> of L2 lands on slot \<open>i\<close> itself: the L1 victim is
  valid and dirty, and the L2 slot chosen for it is \<open>i\<close>.
\<close>

definition overwrites_hit :: "tlb_state \<Rightarrow> nat \<Rightarrow> op_t \<Rightarrow> bool" where
  "overwrites_hit s i op \<longleftrightarrow>
     valid (tlb_l1 s ! find_lru_victim_l1 s) \<and> dirty (tlb_l1 s ! find_lru_victim_l1 s) \<and>
     demote_pos (refreshed_l2 s i op) i = i"

text \<open>No two valid slots of an array hold the same virtual page number.\<close>

definition unique_vpns :: "tlb_entry_t list \<Rightarrow> bool" where
  "unique_vpns tlb \<longleftrightarrow>
     (\<forall>i\<in>{0..<length tlb}. \<forall>j\<in>{0..<length tlb}.
        valid (tlb ! i) \<and> valid (tlb ! j) \<and>
        virtual_page_number (tlb ! i) = virtual_page_number (tlb ! j) \<longrightarrow> i = j)"

text \<open>
  Invariants of a run. Every \<open>last_access\<close> in an array is at most \<open>n\<close>, read as a
  natural number:
\<close>

definition stamps_below :: "nat \<Rightarrow> tlb_entry_t list \<Rightarrow> bool" where
  "stamps_below n tlb \<longleftrightarrow> (\<forall>e\<in>set tlb. unat (last_access e) \<le> n)"

text \<open>and every page that is valid in L2 is valid in L1 (which a one-slot L2 keeps):\<close>

definition l2_in_l1 :: "tlb_state \<Rightarrow> bool" where
  "l2_in_l1 s \<longleftrightarrow>
     (\<forall>e\<in>set (tlb_l2 s). valid e \<longrightarrow>
        (\<exists>e'\<in>set (tlb_l1 s). maps_vpn (virtual_page_number e) e'))"

definition run_inv :: "constants \<Rightarrow> tlb_state \<Rightarrow> bool" where
  "run_inv cfg s \<longleftrightarrow>
     length (tlb_l1 s) = TLB_L1_SIZE cfg \<and> length (tlb_l2 s) = TLB_L2_SIZE cfg \<and>
     stamps_below (unat (access_counter s)) (tlb_l1 s) \<and>
     stamps_below (unat (access_counter s)) (tlb_l2 s) \<and>
     (TLB_L2_SIZE cfg = 1 \<longrightarrow> l2_in_l1 s)"

text \<open>
  The state of the example configuration after three fills from a fresh start: pages 1 and
  2 written, page 3 read.
\<close>

definition three_fill_calls :: "tlb_call list" where
  "three_fill_calls =
     [Translate 0x1000 OP_WRITE 0xA000, Translate 0x2000 OP_WRITE 0xB000,
      Translate 0x3000 OP_READ 0xC000]"

definition three_fills :: tlb_state where
  "three_fills = exec example_cfg (tlb_init example_cfg (boot example_cfg)) three_fill_calls"

text \<open>
  A long run of the example configuration: four fills (page 1 read, pages 2 to 4 written),
  then reads of page 3, each a hit in L1 that advances the access counter by one, until the
  counter holds its largest value.
\<close>

definition wrap_calls :: "tlb_call list" where
  "wrap_calls =
     [Translate 0x1000 OP_READ 0xA000, Translate 0x2000 OP_WRITE 0xB000,
      Translate 0x3000 OP_WRITE 0xC000, Translate 0x4000 OP_WRITE 0xD000] @
     replicate (2 ^ 64 - 9) (Translate 0x3000 OP_READ 0xC000)"

definition near_wrap :: tlb_state where
  "near_wrap = exec example_cfg (tlb_init example_cfg (boot example_cfg)) wrap_calls"

section \<open>Properties\<close>

subsection \<open>The scanning loops\<close>

lemma first_index_None: "first_index P i xs = None \<longleftrightarrow> (\<forall>x\<in>set xs. \<not> P x)"
  by (induction xs arbitrary: i) auto

lemma first_index_Some:
  "first_index P i xs = Some k \<Longrightarrow>
     i \<le> k \<and> k - i < length xs \<and> P (xs ! (k - i)) \<and> (\<forall>j<k - i. \<not> P (xs ! j))"
proof (induction xs arbitrary: i)
  case Nil
  then show ?case by simp
next
  case (Cons e es)
  show ?case
  proof (cases "P e")
    case True
    with Cons.prems show ?thesis by simp
  next
    case False
    with Cons.prems have "first_index P (Suc i) es = Some k" by simp
    from Cons.IH [OF this]
    have ih: "Suc i \<le> k" "k - Suc i < length es" "P (es ! (k - Suc i))"
      "\<forall>j<k - Suc i. \<not> P (es ! j)" by auto
    have "k - i = Suc (k - Suc i)" using ih(1) by arith
    with ih False show ?thesis by (auto simp: nth_Cons split: nat.splits)
  qed
qed

lemma first_index_Some0:
  "first_index P 0 xs = Some k \<Longrightarrow> k < length xs \<and> P (xs ! k) \<and> (\<forall>j<k. \<not> P (xs ! j))"
  using first_index_Some [of P 0 xs k] by simp

lemma tlb_lookup_Some:
  "tlb_lookup tlb vpn = Some k \<Longrightarrow>
     k < length tlb \<and> maps_vpn vpn (tlb ! k) \<and> (\<forall>j<k. \<not> maps_vpn vpn (tlb ! j))"
  unfolding tlb_lookup_def by (rule first_index_Some0)

lemma tlb_lookup_None: "tlb_lookup tlb vpn = None \<longleftrightarrow> (\<forall>e\<in>set tlb. \<not> maps_vpn vpn e)"
  unfolding tlb_lookup_def by (rule first_index_None)

lemma oldest_scan_spec:
  "es = drop i tlb \<Longrightarrow> i \<le> length tlb \<Longrightarrow> lru < i \<Longrightarrow> old = last_access (tlb ! lru) \<Longrightarrow>
   \<forall>j<i. old \<le> last_access (tlb ! j) \<Longrightarrow> \<forall>j<lru. old < last_access (tlb ! j) \<Longrightarrow>
   oldest_scan i es lru old < length tlb \<and>
   (\<forall>j<length tlb. last_access (tlb ! oldest_scan i es lru old) \<le> last_access (tlb ! j)) \<and>
   (\<forall>j<oldest_scan i es lru old. last_access (tlb ! oldest_scan i es lru old) < last_access (tlb ! j))"
proof (induction es arbitrary: i lru old)
  case Nil
  then have "i = length tlb" by simp
  with Nil show ?case by simp
next
  case (Cons e es)
  from Cons.prems(1) have i: "i < length tlb"
    by (metis drop_all list.distinct(1) not_less)
  with Cons.prems(1) have e: "e = tlb ! i" and es: "es = drop (Suc i) tlb"
    by (simp_all add: Cons_nth_drop_Suc [symmetric])
  show ?case
  proof (cases "last_access e < old")
    case True
    have a: "\<forall>j<Suc i. last_access e \<le> last_access (tlb ! j)"
      using True Cons.prems(5) e by (auto simp: less_Suc_eq)
    have b: "\<forall>j<i. last_access e < last_access (tlb ! j)"
      using True Cons.prems(5) by auto
    have "oldest_scan (Suc i) es i (last_access e) < length tlb \<and>
      (\<forall>j<length tlb. last_access (tlb ! oldest_scan (Suc i) es i (last_access e)) \<le> last_access (tlb ! j)) \<and>
      (\<forall>j<oldest_scan (Suc i) es i (last_access e). last_access (tlb ! oldest_scan (Suc i) es i (last_access e)) < last_access (tlb ! j))"
      by (rule Cons.IH) (use es i e a b in auto)
    with True show ?thesis by simp
  next
    case False
    then have a: "\<forall>j<Suc i. old \<le> last_access (tlb ! j)"
      using Cons.prems(5) e by (auto simp: less_Suc_eq)
    have "oldest_scan (Suc i) es lru old < length tlb \<and>
      (\<forall>j<length tlb. last_access (tlb ! oldest_scan (Suc i) es lru old) \<le> last_access (tlb ! j)) \<and>
      (\<forall>j<oldest_scan (Suc i) es lru old. last_access (tlb ! oldest_scan (Suc i) es lru old) < last_access (tlb ! j))"
      by (rule Cons.IH) (use es i a Cons.prems in auto)
    with False show ?thesis by simp
  qed
qed

lemma find_lru_victim_spec: "tlb \<noteq> [] \<Longrightarrow> is_lru_choice tlb (find_lru_victim tlb)"
proof (cases "first_index (\<lambda>e. \<not> valid e) 0 tlb")
  case None
  assume ne: "tlb \<noteq> []"
  from None have allv: "\<forall>e\<in>set tlb. valid e" by (simp add: first_index_None)
  have v: "find_lru_victim tlb = oldest_scan 1 (drop 1 tlb) 0 (last_access (tlb ! 0))"
    using None by (simp add: find_lru_victim_def)
  have "oldest_scan 1 (drop 1 tlb) 0 (last_access (tlb ! 0)) < length tlb \<and>
   (\<forall>j<length tlb. last_access (tlb ! oldest_scan 1 (drop 1 tlb) 0 (last_access (tlb ! 0))) \<le> last_access (tlb ! j)) \<and>
   (\<forall>j<oldest_scan 1 (drop 1 tlb) 0 (last_access (tlb ! 0)). last_access (tlb ! oldest_scan 1 (drop 1 tlb) 0 (last_access (tlb ! 0))) < last_access (tlb ! j))"
    by (rule oldest_scan_spec) (use ne in \<open>auto simp: Suc_le_eq\<close>)
  with allv v show ?thesis by (auto simp: is_lru_choice_def)
next
  case (Some k)
  from first_index_Some0 [OF Some] Some show ?thesis
    by (auto simp: is_lru_choice_def find_lru_victim_def)
qed


lemma find_lru_victim_less: "tlb \<noteq> [] \<Longrightarrow> find_lru_victim tlb < length tlb"
  using find_lru_victim_spec [of tlb] by (simp add: is_lru_choice_def)

text \<open>
  C5: for each level, the victim function returns the lowest-index invalid slot if the
  level has an invalid slot; otherwise it returns the slot with the smallest
  \<open>last_access\<close>, the lowest index among equals. This holds for every content of the
  (non-empty) array.
\<close>

theorem find_lru_victim_correct:
  "(tlb_l1 s \<noteq> [] \<longrightarrow> is_lru_choice (tlb_l1 s) (find_lru_victim_l1 s)) \<and>
   (tlb_l2 s \<noteq> [] \<longrightarrow> is_lru_choice (tlb_l2 s) (find_lru_victim_l2 s))"
  by (simp add: find_lru_victim_l1_def find_lru_victim_l2_def find_lru_victim_spec)

theorem find_lru_victim_correct_witness:
  "tlb_l1 three_fills \<noteq> [] \<and> tlb_l2 three_fills \<noteq> [] \<and>
   is_lru_choice (tlb_l1 three_fills) (find_lru_victim_l1 three_fills) \<and>
   is_lru_choice (tlb_l2 three_fills) (find_lru_victim_l2 three_fills)"
proof -
  have ne: "tlb_l1 three_fills \<noteq> []" "tlb_l2 three_fills \<noteq> []"
    by code_simp+
  with find_lru_victim_correct [of three_fills] show ?thesis by blast
qed

subsection \<open>\<open>tlb_init\<close>\<close>

text \<open>
  C7, as amended: after \<open>tlb_init\<close> every slot of both arrays is the all-zero entry, which
  is invalid, and the six statistics are zero, whatever the state before; the access counter
  is the one of the state before, since \<open>tlb_init\<close> does not assign it.
\<close>

theorem tlb_init_effect:
  "tlb_l1 (tlb_init cfg s) =
     replicate (TLB_L1_SIZE cfg)
       \<lparr>valid = False, dirty = False, last_access = 0, virtual_page_number = 0,
        physical_page_number = 0\<rparr> \<and>
   tlb_l2 (tlb_init cfg s) =
     replicate (TLB_L2_SIZE cfg)
       \<lparr>valid = False, dirty = False, last_access = 0, virtual_page_number = 0,
        physical_page_number = 0\<rparr> \<and>
   tlb_l1_hits (tlb_init cfg s) = 0 \<and> tlb_l1_misses (tlb_init cfg s) = 0 \<and>
   tlb_l1_invalidations (tlb_init cfg s) = 0 \<and>
   tlb_l2_hits (tlb_init cfg s) = 0 \<and> tlb_l2_misses (tlb_init cfg s) = 0 \<and>
   tlb_l2_invalidations (tlb_init cfg s) = 0 \<and>
   access_counter (tlb_init cfg s) = access_counter s"
  by (simp add: tlb_init_def zero_entry_def)

text \<open>
  C7 as stated, with the access counter zero after \<open>tlb_init\<close> whatever the state before,
  fails: after a translation has advanced the access counter to 2, a second \<open>tlb_init\<close>
  leaves it at 2.
\<close>

theorem tlb_init_keeps_access_counter:
  "access_counter
     (tlb_init example_cfg
        (exec example_cfg (tlb_init example_cfg (boot example_cfg)) [Translate 0x1000 OP_READ 0xA000])) \<noteq> 0"
  by code_simp

subsection \<open>\<open>tlb_invalidate\<close>\<close>

lemma invalidate_frame_refl: "invalidate_frame vpn tlb tlb"
  by (simp add: invalidate_frame_def same_but_valid_def)

lemma invalidate_frame_update:
  "i < length tlb \<Longrightarrow> maps_vpn vpn (tlb ! i) \<Longrightarrow>
     invalidate_frame vpn tlb (tlb[i := (tlb ! i)\<lparr>valid := False\<rparr>])"
  by (auto simp: invalidate_frame_def same_but_valid_def nth_list_update)

lemma invalidate_l1:
  "tlb_l1 (tlb_invalidate cfg s vpn) =
     (case tlb_lookup (tlb_l1 s) vpn of None \<Rightarrow> tlb_l1 s
      | Some i \<Rightarrow> (tlb_l1 s)[i := (tlb_l1 s ! i)\<lparr>valid := False\<rparr>])"
  by (simp add: tlb_invalidate_def Let_def split: option.splits)

lemma invalidate_l2:
  "tlb_l2 (tlb_invalidate cfg s vpn) =
     (case tlb_lookup (tlb_l2 s) vpn of None \<Rightarrow> tlb_l2 s
      | Some i \<Rightarrow> (tlb_l2 s)[i := (tlb_l2 s ! i)\<lparr>valid := False\<rparr>])"
  by (simp add: tlb_invalidate_def Let_def split: option.splits)

lemma invalidate_frame_lookup:
  "invalidate_frame vpn tlb
     (case tlb_lookup tlb vpn of None \<Rightarrow> tlb | Some i \<Rightarrow> tlb[i := (tlb ! i)\<lparr>valid := False\<rparr>])"
proof (cases "tlb_lookup tlb vpn")
  case None
  then show ?thesis by (simp add: invalidate_frame_refl)
next
  case (Some i)
  with tlb_lookup_Some [OF Some] show ?thesis by (simp add: invalidate_frame_update)
qed


text \<open>
  C10: for every state and page number, \<open>tlb_invalidate\<close> leaves the hit and miss counters
  of both levels and the access counter as they were; in each array no slot changes in a
  field other than \<open>valid\<close>, a slot that is invalid or maps another page does not change at
  all, and at most one slot changes.
\<close>

theorem tlb_invalidate_frame:
  "tlb_l1_hits (tlb_invalidate cfg s vpn) = tlb_l1_hits s \<and>
   tlb_l1_misses (tlb_invalidate cfg s vpn) = tlb_l1_misses s \<and>
   tlb_l2_hits (tlb_invalidate cfg s vpn) = tlb_l2_hits s \<and>
   tlb_l2_misses (tlb_invalidate cfg s vpn) = tlb_l2_misses s \<and>
   access_counter (tlb_invalidate cfg s vpn) = access_counter s \<and>
   invalidate_frame vpn (tlb_l1 s) (tlb_l1 (tlb_invalidate cfg s vpn)) \<and>
   invalidate_frame vpn (tlb_l2 s) (tlb_l2 (tlb_invalidate cfg s vpn))"
proof -
  have "tlb_l1_hits (tlb_invalidate cfg s vpn) = tlb_l1_hits s"
    "tlb_l1_misses (tlb_invalidate cfg s vpn) = tlb_l1_misses s"
    "tlb_l2_hits (tlb_invalidate cfg s vpn) = tlb_l2_hits s"
    "tlb_l2_misses (tlb_invalidate cfg s vpn) = tlb_l2_misses s"
    "access_counter (tlb_invalidate cfg s vpn) = access_counter s"
    by (simp_all add: tlb_invalidate_def Let_def split: option.splits)
  moreover have "invalidate_frame vpn (tlb_l1 s) (tlb_l1 (tlb_invalidate cfg s vpn))"
    unfolding invalidate_l1 by (rule invalidate_frame_lookup)
  moreover have "invalidate_frame vpn (tlb_l2 s) (tlb_l2 (tlb_invalidate cfg s vpn))"
    unfolding invalidate_l2 by (rule invalidate_frame_lookup)
  ultimately show ?thesis by simp
qed


theorem tlb_invalidate_frame_witness:
  "invalidate_frame 2 (tlb_l1 three_fills) (tlb_l1 (tlb_invalidate example_cfg three_fills 2)) \<and>
   invalidate_frame 2 (tlb_l2 three_fills) (tlb_l2 (tlb_invalidate example_cfg three_fills 2)) \<and>
   \<not> valid (tlb_l1 (tlb_invalidate example_cfg three_fills 2) ! 1) \<and>
   valid (tlb_l1 three_fills ! 1)"
proof -
  have "\<not> valid (tlb_l1 (tlb_invalidate example_cfg three_fills 2) ! 1)"
    "valid (tlb_l1 three_fills ! 1)"
    by code_simp+
  with tlb_invalidate_frame [of example_cfg three_fills 2] show ?thesis by blast
qed

subsection \<open>Write-back calls\<close>

lemma write_backs_append: "write_backs (xs @ ys) = write_backs xs @ write_backs ys"
  by (induction xs rule: write_backs.induct) simp_all



text \<open>
  C4: the write-back calls of one call. \<open>tlb_invalidate\<close> makes one, with the physical page
  address of the L2 entry it found, read before the entry is marked invalid, exactly when
  that entry is dirty; it makes none for L1. \<open>tlb_translate\<close> makes one, with the physical
  page address of the L2 victim slot as it was before being overwritten, exactly when both
  levels miss and that slot is valid and dirty; it makes none on a hit, so none for a
  promotion or a demotion, and none for an L1 victim. \<open>tlb_init\<close> makes none.
\<close>

theorem write_back_calls:
  "write_backs (events (tlb_invalidate cfg s vpn)) =
     write_backs (events s) @
       (case tlb_lookup (tlb_l2 s) vpn of
          None \<Rightarrow> []
        | Some i \<Rightarrow>
            if dirty (tlb_l2 s ! i)
            then [push_bit (PAGE_SIZE_BITS cfg) (physical_page_number (tlb_l2 s ! i))]
            else []) \<and>
   write_backs (events (snd (tlb_translate cfg pt s va op))) =
     write_backs (events s) @
       (if probe s (drop_bit (PAGE_SIZE_BITS cfg) va) = Miss \<and>
           valid (tlb_l2 s ! find_lru_victim_l2 s) \<and> dirty (tlb_l2 s ! find_lru_victim_l2 s)
        then [push_bit (PAGE_SIZE_BITS cfg)
                (physical_page_number (tlb_l2 s ! find_lru_victim_l2 s))]
        else []) \<and>
   write_backs (events (tlb_init cfg s)) = write_backs (events s)"
proof -
  have inv: "write_backs (events (tlb_invalidate cfg s vpn)) =
     write_backs (events s) @
       (case tlb_lookup (tlb_l2 s) vpn of
          None \<Rightarrow> []
        | Some i \<Rightarrow>
            if dirty (tlb_l2 s ! i)
            then [push_bit (PAGE_SIZE_BITS cfg) (physical_page_number (tlb_l2 s ! i))]
            else [])"
    by (auto simp: tlb_invalidate_def Let_def write_backs_append split: option.splits)
  have tr: "write_backs (events (snd (tlb_translate cfg pt s va op))) =
     write_backs (events s) @
       (if probe s (drop_bit (PAGE_SIZE_BITS cfg) va) = Miss \<and>
           valid (tlb_l2 s ! find_lru_victim_l2 s) \<and> dirty (tlb_l2 s ! find_lru_victim_l2 s)
        then [push_bit (PAGE_SIZE_BITS cfg)
                (physical_page_number (tlb_l2 s ! find_lru_victim_l2 s))]
        else [])"
    by (simp add: tlb_translate_def probe_def l1_hit_def l2_hit_def miss_fill_def l1_miss_def
        find_lru_victim_l2_def Let_def write_backs_append split: option.splits)
  have "write_backs (events (tlb_init cfg s)) = write_backs (events s)"
    by (simp add: tlb_init_def)
  with inv tr show ?thesis by simp
qed

subsection \<open>The branches of \<open>tlb_translate\<close>\<close>

lemma translate_l1_hit:
  "tlb_lookup (tlb_l1 s) (drop_bit (PAGE_SIZE_BITS cfg) va) = Some i \<Longrightarrow>
     tlb_translate cfg pt s va op =
       l1_hit cfg s i op (va AND (push_bit (PAGE_SIZE_BITS cfg) 1 - 1))"
  by (simp add: tlb_translate_def Let_def)

lemma translate_l2_hit:
  "tlb_lookup (tlb_l1 s) (drop_bit (PAGE_SIZE_BITS cfg) va) = None \<Longrightarrow>
   tlb_lookup (tlb_l2 s) (drop_bit (PAGE_SIZE_BITS cfg) va) = Some i \<Longrightarrow>
     tlb_translate cfg pt s va op =
       l2_hit cfg (l1_miss cfg s) i op (va AND (push_bit (PAGE_SIZE_BITS cfg) 1 - 1))"
  by (simp add: tlb_translate_def Let_def)

lemma translate_miss:
  "tlb_lookup (tlb_l1 s) (drop_bit (PAGE_SIZE_BITS cfg) va) = None \<Longrightarrow>
   tlb_lookup (tlb_l2 s) (drop_bit (PAGE_SIZE_BITS cfg) va) = None \<Longrightarrow>
     tlb_translate cfg pt s va op =
       miss_fill cfg pt (l1_miss cfg s) va op (drop_bit (PAGE_SIZE_BITS cfg) va)"
  by (simp add: tlb_translate_def Let_def)

lemma l1_miss_fields [simp]:
  "tlb_l1 (l1_miss cfg s) = tlb_l1 s" "tlb_l2 (l1_miss cfg s) = tlb_l2 s"
  "access_counter (l1_miss cfg s) = access_counter s"
  by (simp_all add: l1_miss_def)

lemma probe_cases:
  "probe s vpn = HitL1 i \<longleftrightarrow> tlb_lookup (tlb_l1 s) vpn = Some i"
  "probe s vpn = HitL2 i \<longleftrightarrow> tlb_lookup (tlb_l1 s) vpn = None \<and> tlb_lookup (tlb_l2 s) vpn = Some i"
  "probe s vpn = Miss \<longleftrightarrow> tlb_lookup (tlb_l1 s) vpn = None \<and> tlb_lookup (tlb_l2 s) vpn = None"
  by (auto simp: probe_def split: option.splits)


subsection \<open>Timestamps of a fill\<close>

lemma miss_fill_l2_nth:
  "tlb_l2 s \<noteq> [] \<Longrightarrow>
     tlb_l2 (snd (miss_fill cfg pt s va op vpn)) ! find_lru_victim (tlb_l2 s) =
       (tlb_l2 s ! find_lru_victim (tlb_l2 s))\<lparr>valid := True, virtual_page_number := vpn,
          physical_page_number := drop_bit (PAGE_SIZE_BITS cfg) (pt va op),
          dirty := (op = OP_WRITE), last_access := access_counter s + 1\<rparr>"
  by (simp add: miss_fill_def Let_def find_lru_victim_less)

lemma miss_fill_l1_nth:
  "tlb_l1 s \<noteq> [] \<Longrightarrow>
     tlb_l1 (snd (miss_fill cfg pt s va op vpn)) ! find_lru_victim (tlb_l1 s) =
       (tlb_l1 s ! find_lru_victim (tlb_l1 s))\<lparr>valid := True, virtual_page_number := vpn,
          physical_page_number := drop_bit (PAGE_SIZE_BITS cfg) (pt va op),
          dirty := (op = OP_WRITE), last_access := access_counter s + 1 + 1\<rparr>"
  by (simp add: miss_fill_def Let_def find_lru_victim_less)


text \<open>
  C3, that a fill after a miss in both levels gives the new L1 entry the same
  \<open>last_access\<close> as the new L2 entry, fails on the code. The entry written into the L2
  victim slot gets the access counter plus one and the entry written into the L1 victim
  slot gets the access counter plus two: the two values are never the same.
\<close>

theorem miss_fill_timestamps:
  assumes "probe s (drop_bit (PAGE_SIZE_BITS cfg) va) = Miss"
    and "tlb_l1 s \<noteq> []" and "tlb_l2 s \<noteq> []"
    and "s' = snd (tlb_translate cfg pt s va op)"
  shows "last_access (tlb_l2 s' ! find_lru_victim_l2 s) = access_counter s + 1 \<and>
         last_access (tlb_l1 s' ! find_lru_victim_l1 s) = access_counter s + 2 \<and>
         last_access (tlb_l1 s' ! find_lru_victim_l1 s) \<noteq>
           last_access (tlb_l2 s' ! find_lru_victim_l2 s)"
proof -
  from assms(1) have l: "tlb_lookup (tlb_l1 s) (drop_bit (PAGE_SIZE_BITS cfg) va) = None"
    "tlb_lookup (tlb_l2 s) (drop_bit (PAGE_SIZE_BITS cfg) va) = None"
    by (simp_all add: probe_cases)
  have s': "s' = snd (miss_fill cfg pt (l1_miss cfg s) va op (drop_bit (PAGE_SIZE_BITS cfg) va))"
    by (simp add: assms(4) translate_miss [OF l])
  have a: "last_access (tlb_l2 s' ! find_lru_victim_l2 s) = access_counter s + 1"
    using miss_fill_l2_nth [of "l1_miss cfg s" cfg pt va op] assms(3)
    by (simp add: s' find_lru_victim_l2_def)
  have b: "last_access (tlb_l1 s' ! find_lru_victim_l1 s) = access_counter s + 2"
    using miss_fill_l1_nth [of "l1_miss cfg s" cfg pt va op] assms(2)
    by (simp add: s' find_lru_victim_l1_def)
  from a b show ?thesis by simp
qed


theorem miss_fill_timestamps_witness:
  "probe (tlb_init example_cfg (boot example_cfg)) (drop_bit (PAGE_SIZE_BITS example_cfg) 0x1000) = Miss \<and>
   last_access
     (tlb_l2 (snd (tlb_translate example_cfg (\<lambda>_ _. 0xA000) (tlb_init example_cfg (boot example_cfg))
        0x1000 OP_READ)) ! 0) = 1 \<and>
   last_access
     (tlb_l1 (snd (tlb_translate example_cfg (\<lambda>_ _. 0xA000) (tlb_init example_cfg (boot example_cfg))
        0x1000 OP_READ)) ! 0) = 2"
proof -
  have m: "probe (tlb_init example_cfg (boot example_cfg)) (drop_bit (PAGE_SIZE_BITS example_cfg) 0x1000) = Miss"
    by code_simp
  have ne: "tlb_l1 (tlb_init example_cfg (boot example_cfg)) \<noteq> []" "tlb_l2 (tlb_init example_cfg (boot example_cfg)) \<noteq> []"
    by code_simp+
  have v: "find_lru_victim_l1 (tlb_init example_cfg (boot example_cfg)) = 0"
    "find_lru_victim_l2 (tlb_init example_cfg (boot example_cfg)) = 0"
    "access_counter (tlb_init example_cfg (boot example_cfg)) = 0"
    by code_simp+
  from miss_fill_timestamps [where pt = "\<lambda>_ _. 0xA000" and op = OP_READ, OF m ne refl] m v
  show ?thesis by simp
qed

subsection \<open>Time stamps and touched entries\<close>

lemma unat_plus1: "unat (x :: 64 word) + 1 < 2 ^ 64 \<Longrightarrow> unat (x + 1) = unat x + 1"
  by (simp add: unat_word_ariths)

lemma stamps_below_mono: "stamps_below n tlb \<Longrightarrow> n \<le> m \<Longrightarrow> stamps_below m tlb"
  by (auto simp: stamps_below_def)

lemma stamps_below_update:
  "stamps_below n tlb \<Longrightarrow> unat (last_access v) \<le> n \<Longrightarrow> stamps_below n (tlb[k := v])"
  using set_update_subset_insert [of tlb k v] by (auto simp: stamps_below_def)

lemma stamps_below_nth: "stamps_below n tlb \<Longrightarrow> k < length tlb \<Longrightarrow> unat (last_access (tlb ! k)) \<le> n"
  by (simp add: stamps_below_def)

lemma stamps_below_replicate: "stamps_below n (replicate k zero_entry)"
  by (simp add: stamps_below_def zero_entry_def)

lemma dirty_touch [simp]: "dirty (touch t op e) \<longleftrightarrow> op = OP_WRITE \<or> dirty e"
  by (simp add: touch_def)

lemma last_access_touch [simp]: "last_access (touch t op e) = t"
  by (simp add: touch_def)

lemma maps_vpn_touch [simp]: "maps_vpn vpn (touch t op e) = maps_vpn vpn e"
  by (simp add: touch_def maps_vpn_def)

lemma ppn_touch [simp]: "physical_page_number (touch t op e) = physical_page_number e"
  by (simp add: touch_def)

lemma vpn_touch [simp]: "virtual_page_number (touch t op e) = virtual_page_number e"
  by (simp add: touch_def)

lemma valid_touch [simp]: "valid (touch t op e) = valid e"
  by (simp add: touch_def)


subsection \<open>Invariants of a run\<close>

text \<open>\<open>tlb_invalidate\<close> keeps them.\<close>

lemma invalidate_counter [simp]: "access_counter (tlb_invalidate cfg s vpn) = access_counter s"
  by (simp add: tlb_invalidate_def Let_def split: option.splits)

lemma stamps_below_invalidated:
  "stamps_below n tlb \<Longrightarrow>
     stamps_below n (case tlb_lookup tlb vpn of None \<Rightarrow> tlb
                     | Some i \<Rightarrow> tlb[i := (tlb ! i)\<lparr>valid := False\<rparr>])"
  by (auto split: option.splits dest!: tlb_lookup_Some
      intro!: stamps_below_update simp: stamps_below_nth)

lemma length_invalidated [simp]:
  "length (case tlb_lookup tlb vpn of None \<Rightarrow> tlb
           | Some i \<Rightarrow> tlb[i := (tlb ! i)\<lparr>valid := False\<rparr>]) = length tlb"
  by (simp split: option.splits)

lemma l2_in_l1_invalidate_l1:
  assumes "e' \<in> set l1" and "\<not> maps_vpn v e'"
  shows "e' \<in> set (case tlb_lookup l1 v of None \<Rightarrow> l1
                     | Some i \<Rightarrow> l1[i := (l1 ! i)\<lparr>valid := False\<rparr>])"
proof (cases "tlb_lookup l1 v")
  case None
  with assms show ?thesis by simp
next
  case (Some i)
  from tlb_lookup_Some [OF Some] have i: "i < length l1" "maps_vpn v (l1 ! i)" by simp_all
  from assms(1) obtain j where j: "j < length l1" "l1 ! j = e'"
    by (auto simp: in_set_conv_nth)
  with assms(2) i have "j \<noteq> i" by auto
  with j have "l1[i := (l1 ! i)\<lparr>valid := False\<rparr>] ! j = e'" by simp
  with j(1) have "e' \<in> set (l1[i := (l1 ! i)\<lparr>valid := False\<rparr>])"
    by (metis length_list_update nth_mem)
  with Some show ?thesis by simp
qed

lemma single_invalidated:
  assumes "length l2 = 1"
    and "e \<in> set (case tlb_lookup l2 v of None \<Rightarrow> l2
                     | Some i \<Rightarrow> l2[i := (l2 ! i)\<lparr>valid := False\<rparr>])"
    and "valid e"
  shows "e \<in> set l2 \<and> \<not> maps_vpn v e"
proof (cases "tlb_lookup l2 v")
  case None
  with assms(2) show ?thesis by (auto simp: tlb_lookup_None)
next
  case (Some i)
  from assms(1) obtain x where x: "l2 = [x]" by (cases l2) auto
  from tlb_lookup_Some [OF Some] x have "i = 0" by simp
  with assms(2,3) Some x show ?thesis by simp
qed

lemma invalidate_l2_in_l1:
  assumes "length (tlb_l2 s) = 1" and "l2_in_l1 s"
  shows "l2_in_l1 (tlb_invalidate cfg s v)"
  unfolding l2_in_l1_def invalidate_l1 invalidate_l2
proof (intro ballI impI)
  fix e
  assume e: "e \<in> set (case tlb_lookup (tlb_l2 s) v of None \<Rightarrow> tlb_l2 s
                     | Some i \<Rightarrow> (tlb_l2 s)[i := (tlb_l2 s ! i)\<lparr>valid := False\<rparr>])"
    and v: "valid e"
  from single_invalidated [OF assms(1) e v] have e2: "e \<in> set (tlb_l2 s)" "\<not> maps_vpn v e"
    by simp_all
  with assms(2) v obtain e' where e': "e' \<in> set (tlb_l1 s)" "maps_vpn (virtual_page_number e) e'"
    by (auto simp: l2_in_l1_def)
  with e2 v have "\<not> maps_vpn v e'" by (auto simp: maps_vpn_def)
  from l2_in_l1_invalidate_l1 [OF e'(1) this] e'(2)
  show "\<exists>e'\<in>set (case tlb_lookup (tlb_l1 s) v of None \<Rightarrow> tlb_l1 s
                     | Some i \<Rightarrow> (tlb_l1 s)[i := (tlb_l1 s ! i)\<lparr>valid := False\<rparr>]).
           maps_vpn (virtual_page_number e) e'"
    by blast
qed

lemma invalidate_run_inv:
  assumes "run_inv cfg s"
  shows "run_inv cfg (tlb_invalidate cfg s v)"
proof -
  from assms have "length (tlb_l1 (tlb_invalidate cfg s v)) = TLB_L1_SIZE cfg"
    "length (tlb_l2 (tlb_invalidate cfg s v)) = TLB_L2_SIZE cfg"
    by (simp_all add: run_inv_def invalidate_l1 invalidate_l2)
  moreover from assms
  have "stamps_below (unat (access_counter (tlb_invalidate cfg s v))) (tlb_l1 (tlb_invalidate cfg s v))"
    "stamps_below (unat (access_counter (tlb_invalidate cfg s v))) (tlb_l2 (tlb_invalidate cfg s v))"
    by (simp_all add: run_inv_def invalidate_l1 invalidate_l2 stamps_below_invalidated)
  moreover from assms have "TLB_L2_SIZE cfg = 1 \<longrightarrow> l2_in_l1 (tlb_invalidate cfg s v)"
    by (auto simp: run_inv_def intro: invalidate_l2_in_l1)
  ultimately show ?thesis by (simp add: run_inv_def)
qed

text \<open>So does a hit in L1, while the access counter does not wrap.\<close>

lemma l1_hit_fields:
  "tlb_l1 (snd (l1_hit cfg s i op off)) =
     (tlb_l1 s)[i := touch (access_counter s + 1) op (tlb_l1 s ! i)]"
  "tlb_l2 (snd (l1_hit cfg s i op off)) = tlb_l2 s"
  "access_counter (snd (l1_hit cfg s i op off)) = access_counter s + 1"
  by (simp_all add: l1_hit_def Let_def)

lemma maps_vpn_update_touch:
  assumes "\<exists>e'\<in>set l1. maps_vpn u e'"
  shows "\<exists>e'\<in>set (l1[i := touch t op (l1 ! i)]). maps_vpn u e'"
proof -
  from assms obtain j where j: "j < length l1" "maps_vpn u (l1 ! j)"
    by (auto simp: in_set_conv_nth)
  then have "maps_vpn u (l1[i := touch t op (l1 ! i)] ! j)"
    by (cases "i = j") simp_all
  with j(1) show ?thesis
    by (metis length_list_update nth_mem)
qed

lemma l1_hit_run_inv:
  assumes "run_inv cfg s" and "i < length (tlb_l1 s)" and "unat (access_counter s) + 1 < 2 ^ 64"
  shows "run_inv cfg (snd (l1_hit cfg s i op off))"
proof -
  have c: "unat (access_counter s + 1) = unat (access_counter s) + 1"
    using assms(3) by (rule unat_plus1)
  from assms(1) have sb: "stamps_below (unat (access_counter s) + 1) (tlb_l1 s)"
    "stamps_below (unat (access_counter s) + 1) (tlb_l2 s)"
    by (auto simp: run_inv_def intro: stamps_below_mono)
  have "stamps_below (unat (access_counter s) + 1)
      ((tlb_l1 s)[i := touch (access_counter s + 1) op (tlb_l1 s ! i)])"
    using sb(1) by (rule stamps_below_update) (simp add: c)
  moreover have "l2_in_l1 (snd (l1_hit cfg s i op off))" if "l2_in_l1 s"
    using that by (auto simp: l2_in_l1_def l1_hit_fields intro: maps_vpn_update_touch)
  ultimately show ?thesis
    using assms(1) sb(2) by (simp add: run_inv_def l1_hit_fields c)
qed

text \<open>The hit in L2.\<close>

lemma length_refreshed_l2 [simp]: "length (refreshed_l2 s i op) = length (tlb_l2 s)"
  by (simp add: refreshed_l2_def)

lemma refreshed_l2_nth:
  "i < length (tlb_l2 s) \<Longrightarrow>
     refreshed_l2 s i op ! j =
       (if j = i then touch (access_counter s + 1) op (tlb_l2 s ! i) else tlb_l2 s ! j)"
  by (simp add: refreshed_l2_def)

lemma l1_miss_refreshed [simp]: "refreshed_l2 (l1_miss cfg s) i op = refreshed_l2 s i op"
  by (simp add: refreshed_l2_def)

text \<open>
  The slot just refreshed carries the newest stamp, so with another slot in the array it
  is not the victim.
\<close>

lemma victim_not_refreshed:
  assumes i: "i < length (tlb_l2 s)" and v: "valid (tlb_l2 s ! i)"
    and sb: "stamps_below (unat (access_counter s)) (tlb_l2 s)"
    and nw: "unat (access_counter s) + 1 < 2 ^ 64"
    and two: "1 < length (tlb_l2 s)"
  shows "find_lru_victim (refreshed_l2 s i op) \<noteq> i"
proof
  let ?l = "refreshed_l2 s i op"
  assume eq: "find_lru_victim ?l = i"
  have ne: "?l \<noteq> []" using i by (auto simp flip: length_0_conv)
  from find_lru_victim_spec [OF ne] eq have ch: "is_lru_choice ?l i" by simp
  have vi: "valid (?l ! i)" using i v by (simp add: refreshed_l2_nth)
  have "\<exists>j<length (tlb_l2 s). j \<noteq> i"
  proof (cases "i = 0")
    case True
    with two show ?thesis by (intro exI [of _ 1]) simp
  next
    case False
    with i show ?thesis by (intro exI [of _ 0]) auto
  qed
  then obtain j where j: "j < length (tlb_l2 s)" "j \<noteq> i" by blast
  from ch vi j(1) have "last_access (?l ! i) \<le> last_access (?l ! j)"
    by (auto simp: is_lru_choice_def split: if_splits)
  then have "access_counter s + 1 \<le> last_access (tlb_l2 s ! j)"
    using i j by (simp add: refreshed_l2_nth)
  then have "unat (access_counter s + 1) \<le> unat (last_access (tlb_l2 s ! j))"
    by (simp add: word_le_nat_alt)
  moreover have "unat (last_access (tlb_l2 s ! j)) \<le> unat (access_counter s)"
    using sb j(1) by (rule stamps_below_nth)
  ultimately show False using unat_plus1 [OF nw] by simp
qed

lemma demote_pos_not_refreshed:
  assumes "i < length (tlb_l2 s)" and "valid (tlb_l2 s ! i)"
    and "stamps_below (unat (access_counter s)) (tlb_l2 s)"
    and "unat (access_counter s) + 1 < 2 ^ 64"
    and "1 < length (tlb_l2 s)"
  shows "demote_pos (refreshed_l2 s i op) i = find_lru_victim (refreshed_l2 s i op) \<and>
         demote_pos (refreshed_l2 s i op) i \<noteq> i \<and>
         demote_pos (refreshed_l2 s i op) i < length (tlb_l2 s)"
proof -
  have "refreshed_l2 s i op \<noteq> []" using assms(1) by (auto simp flip: length_0_conv)
  from find_lru_victim_less [OF this] victim_not_refreshed [OF assms]
  show ?thesis by (simp add: demote_pos_def Let_def)
qed

text \<open>What the branch leaves when the demotion does not land on slot \<open>i\<close>.\<close>

lemma l2_hit_kept:
  assumes i: "i < length (tlb_l2 s)" and l1: "tlb_l1 s \<noteq> []"
    and d: "\<not> overwrites_hit s i op"
  shows "fst (l2_hit cfg s i op off) =
           push_bit (PAGE_SIZE_BITS cfg) (physical_page_number (tlb_l2 s ! i)) OR off"
    and "tlb_l1 (snd (l2_hit cfg s i op off)) =
           (tlb_l1 s)[find_lru_victim (tlb_l1 s) := touch (access_counter s + 1) op (tlb_l2 s ! i)]"
    and "tlb_l2 (snd (l2_hit cfg s i op off)) ! i = touch (access_counter s + 1) op (tlb_l2 s ! i)"
proof -
  define l2a where "l2a = refreshed_l2 s i op"
  define victim where "victim = tlb_l1 s ! find_lru_victim (tlb_l1 s)"
  define l2b where "l2b = (if valid victim \<and> dirty victim
    then l2a[demote_pos l2a i := victim] else l2a)"
  have len: "i < length l2a" "i < length l2b" using i by (simp_all add: l2a_def l2b_def)
  have "l2b ! i = l2a ! i"
    using d by (auto simp: overwrites_hit_def find_lru_victim_l1_def l2b_def l2a_def victim_def)
  then have b: "l2b ! i = touch (access_counter s + 1) op (tlb_l2 s ! i)"
    using i by (simp add: l2a_def refreshed_l2_nth)
  have t: "(touch (access_counter s + 1) op (tlb_l2 s ! i))\<lparr>last_access := access_counter s + 1\<rparr> =
      touch (access_counter s + 1) op (tlb_l2 s ! i)"
    by (simp add: touch_def)
  have r: "l2_hit cfg s i op off =
    (push_bit (PAGE_SIZE_BITS cfg)
       (physical_page_number (l2b[i := (l2b ! i)\<lparr>last_access := access_counter s + 1\<rparr>] ! i)) OR off,
     s\<lparr>tlb_l2_hits := tlb_l2_hits s + 1,
       access_counter := access_counter s + 1,
       tlb_l1 := (tlb_l1 s)[find_lru_victim (tlb_l1 s) := l2b ! i],
       tlb_l2 := l2b[i := (l2b ! i)\<lparr>last_access := access_counter s + 1\<rparr>],
       events := events s @ [IncrementTime (TLB_L2_LATENCY_NS cfg)]\<rparr>)"
    by (simp add: l2_hit_def Let_def l2b_def victim_def l2a_def)
  show "fst (l2_hit cfg s i op off) =
           push_bit (PAGE_SIZE_BITS cfg) (physical_page_number (tlb_l2 s ! i)) OR off"
    using len by (simp add: r b)
  show "tlb_l1 (snd (l2_hit cfg s i op off)) =
           (tlb_l1 s)[find_lru_victim (tlb_l1 s) := touch (access_counter s + 1) op (tlb_l2 s ! i)]"
    by (simp add: r b)
  show "tlb_l2 (snd (l2_hit cfg s i op off)) ! i = touch (access_counter s + 1) op (tlb_l2 s ! i)"
    using len by (simp add: r b t)
qed

lemma l2_hit_run_inv:
  assumes inv: "run_inv cfg s" and i: "i < length (tlb_l2 s)" and l1: "tlb_l1 s \<noteq> []"
    and nw: "unat (access_counter s) + 1 < 2 ^ 64" and sz: "TLB_L2_SIZE cfg \<noteq> 1"
  shows "run_inv cfg (snd (l2_hit cfg s i op off))"
proof -
  let ?n = "unat (access_counter s) + 1"
  define l2a where "l2a = refreshed_l2 s i op"
  define victim where "victim = tlb_l1 s ! find_lru_victim (tlb_l1 s)"
  define l2b where "l2b = (if valid victim \<and> dirty victim
    then l2a[demote_pos l2a i := victim] else l2a)"
  have c: "unat (access_counter s + 1) = ?n" using nw by (rule unat_plus1)
  from inv have sb: "stamps_below ?n (tlb_l1 s)" "stamps_below ?n (tlb_l2 s)"
    by (auto simp: run_inv_def intro: stamps_below_mono)
  have a: "stamps_below ?n l2a"
    unfolding l2a_def refreshed_l2_def using sb(2) by (rule stamps_below_update) (simp add: c)
  have vic: "unat (last_access victim) \<le> ?n"
    unfolding victim_def using sb(1) find_lru_victim_less [OF l1] by (rule stamps_below_nth)
  have b: "stamps_below ?n l2b"
    using a vic by (simp add: l2b_def stamps_below_update)
  have len: "length l2b = length (tlb_l2 s)" by (simp add: l2b_def l2a_def)
  have bi: "unat (last_access (l2b ! i)) \<le> ?n"
    using b i len by (simp add: stamps_below_nth)
  have r1: "tlb_l1 (snd (l2_hit cfg s i op off)) = (tlb_l1 s)[find_lru_victim (tlb_l1 s) := l2b ! i]"
    and r2: "tlb_l2 (snd (l2_hit cfg s i op off)) =
      l2b[i := (l2b ! i)\<lparr>last_access := access_counter s + 1\<rparr>]"
    and r3: "access_counter (snd (l2_hit cfg s i op off)) = access_counter s + 1"
    by (simp_all add: l2_hit_def Let_def l2b_def victim_def l2a_def)
  have "stamps_below ?n ((tlb_l1 s)[find_lru_victim (tlb_l1 s) := l2b ! i])"
    using sb(1) bi by (rule stamps_below_update)
  moreover have "stamps_below ?n (l2b[i := (l2b ! i)\<lparr>last_access := access_counter s + 1\<rparr>])"
    using b by (rule stamps_below_update) (simp add: c)
  ultimately show ?thesis
    using inv sz len by (simp add: run_inv_def r1 r2 r3 c)
qed

text \<open>The fill after a miss in both levels.\<close>

lemma miss_fill_fields:
  "tlb_l2 (snd (miss_fill cfg pt s va op vpn)) =
     (tlb_l2 s)[find_lru_victim (tlb_l2 s) :=
        (tlb_l2 s ! find_lru_victim (tlb_l2 s))\<lparr>valid := True, virtual_page_number := vpn,
          physical_page_number := drop_bit (PAGE_SIZE_BITS cfg) (pt va op),
          dirty := (op = OP_WRITE), last_access := access_counter s + 1\<rparr>]"
  "tlb_l1 (snd (miss_fill cfg pt s va op vpn)) =
     (tlb_l1 s)[find_lru_victim (tlb_l1 s) :=
        (tlb_l1 s ! find_lru_victim (tlb_l1 s))\<lparr>valid := True, virtual_page_number := vpn,
          physical_page_number := drop_bit (PAGE_SIZE_BITS cfg) (pt va op),
          dirty := (op = OP_WRITE), last_access := access_counter s + 1 + 1\<rparr>]"
  "access_counter (snd (miss_fill cfg pt s va op vpn)) = access_counter s + 1 + 1"
  by (simp_all add: miss_fill_def Let_def)

lemma unat_plus2:
  assumes "unat (x :: 64 word) + 2 < 2 ^ 64"
  shows "unat (x + 1 + 1) = unat x + 2" and "unat (2 + x) = unat x + 2"
proof -
  from assms have a: "unat (x + 1) = unat x + 1" by (intro unat_plus1) simp
  with assms have "unat (x + 1 + 1) = unat (x + 1) + 1" by (intro unat_plus1) simp
  with a show "unat (x + 1 + 1) = unat x + 2" by simp
  then show "unat (2 + x) = unat x + 2" by (simp add: add.commute)
qed

lemma miss_fill_l2_in_l1:
  assumes "length (tlb_l2 s) = 1" and "tlb_l1 s \<noteq> []"
  shows "l2_in_l1 (snd (miss_fill cfg pt s va op vpn))"
proof -
  from assms(1) obtain x where x: "tlb_l2 s = [x]" by (cases "tlb_l2 s") auto
  then have "find_lru_victim (tlb_l2 s) < 1"
    using find_lru_victim_less [of "tlb_l2 s"] by simp
  then have z: "find_lru_victim [x] = 0" by (simp add: x)
  let ?n = "(tlb_l1 s ! find_lru_victim (tlb_l1 s))\<lparr>valid := True, virtual_page_number := vpn,
          physical_page_number := drop_bit (PAGE_SIZE_BITS cfg) (pt va op),
          dirty := (op = OP_WRITE), last_access := access_counter s + 1 + 1\<rparr>"
  have "?n \<in> set (tlb_l1 (snd (miss_fill cfg pt s va op vpn)))"
    unfolding miss_fill_fields using find_lru_victim_less [OF assms(2)] by (rule set_update_memI)
  moreover have "maps_vpn vpn ?n" by (simp add: maps_vpn_def)
  moreover have "tlb_l2 (snd (miss_fill cfg pt s va op vpn)) =
      [x\<lparr>valid := True, virtual_page_number := vpn,
          physical_page_number := drop_bit (PAGE_SIZE_BITS cfg) (pt va op),
          dirty := (op = OP_WRITE), last_access := access_counter s + 1\<rparr>]"
    by (simp add: miss_fill_fields(1) x z)
  ultimately show ?thesis
    unfolding l2_in_l1_def by auto
qed

lemma miss_fill_run_inv:
  assumes inv: "run_inv cfg s" and l1: "tlb_l1 s \<noteq> []"
    and nw: "unat (access_counter s) + 2 < 2 ^ 64"
  shows "run_inv cfg (snd (miss_fill cfg pt s va op vpn))"
proof -
  let ?n = "unat (access_counter s) + 2"
  have c1: "unat (access_counter s + 1) = unat (access_counter s) + 1"
    using nw by (intro unat_plus1) simp
  have c2: "unat (access_counter s + 1 + 1) = ?n" "unat (2 + access_counter s) = ?n"
    using nw by (rule unat_plus2)+
  from inv have sb: "stamps_below ?n (tlb_l1 s)" "stamps_below ?n (tlb_l2 s)"
    by (auto simp: run_inv_def intro: stamps_below_mono)
  have "stamps_below ?n (tlb_l2 (snd (miss_fill cfg pt s va op vpn)))"
    unfolding miss_fill_fields using sb(2) by (rule stamps_below_update) (simp add: c1)
  moreover have "stamps_below ?n (tlb_l1 (snd (miss_fill cfg pt s va op vpn)))"
    unfolding miss_fill_fields using sb(1) by (rule stamps_below_update) (simp add: c2)
  moreover have "l2_in_l1 (snd (miss_fill cfg pt s va op vpn))" if "TLB_L2_SIZE cfg = 1"
    using that inv l1 by (intro miss_fill_l2_in_l1) (simp_all add: run_inv_def)
  moreover have "length (tlb_l1 (snd (miss_fill cfg pt s va op vpn))) = TLB_L1_SIZE cfg"
    "length (tlb_l2 (snd (miss_fill cfg pt s va op vpn))) = TLB_L2_SIZE cfg"
    using inv by (simp_all add: miss_fill_fields run_inv_def)
  ultimately show ?thesis
    by (simp add: run_inv_def miss_fill_fields(3) c2)
qed

text \<open>One call, and a run from \<open>tlb_init\<close>.\<close>

lemma l1_miss_run_inv [simp]: "run_inv cfg (l1_miss cfg s) = run_inv cfg s"
  by (simp add: run_inv_def l2_in_l1_def)

lemma l2_in_l1_no_l2_only_hit:
  assumes "l2_in_l1 s" and "tlb_lookup (tlb_l1 s) vpn = None"
  shows "tlb_lookup (tlb_l2 s) vpn = None"
proof (rule ccontr)
  assume "tlb_lookup (tlb_l2 s) vpn \<noteq> None"
  then obtain i where "tlb_lookup (tlb_l2 s) vpn = Some i" by auto
  from tlb_lookup_Some [OF this] have "tlb_l2 s ! i \<in> set (tlb_l2 s)" "maps_vpn vpn (tlb_l2 s ! i)"
    by simp_all
  with assms(1) obtain e' where "e' \<in> set (tlb_l1 s)" "maps_vpn vpn e'"
    by (auto simp: l2_in_l1_def maps_vpn_def)
  with assms(2) show False by (simp add: tlb_lookup_None)
qed

lemma translate_run_inv:
  assumes inv: "run_inv cfg s" and sz: "0 < TLB_L1_SIZE cfg"
    and nw: "unat (access_counter s) + 2 < 2 ^ 64"
  shows "run_inv cfg (snd (tlb_translate cfg pt s va op)) \<and>
         unat (access_counter (snd (tlb_translate cfg pt s va op))) \<le> unat (access_counter s) + 2"
proof -
  let ?vpn = "drop_bit (PAGE_SIZE_BITS cfg) va"
  from inv sz have l1: "tlb_l1 s \<noteq> []" by (auto simp: run_inv_def)
  have nw1: "unat (access_counter s) + 1 < 2 ^ 64" using nw by simp
  note c1 = unat_plus1 [OF nw1] and c2 = unat_plus2 [OF nw]
  show ?thesis
  proof (cases "tlb_lookup (tlb_l1 s) ?vpn")
    case (Some i)
    from tlb_lookup_Some [OF Some] have "i < length (tlb_l1 s)" by simp
    from l1_hit_run_inv [OF inv this nw1] show ?thesis
      by (simp add: translate_l1_hit [OF Some] l1_hit_fields c1)
  next
    case None
    show ?thesis
    proof (cases "tlb_lookup (tlb_l2 s) ?vpn")
      case (Some i)
      from tlb_lookup_Some [OF Some] have i: "i < length (tlb_l2 (l1_miss cfg s))" by simp
      from l2_in_l1_no_l2_only_hit [OF _ None] Some inv have "TLB_L2_SIZE cfg \<noteq> 1"
        by (auto simp: run_inv_def)
      from l2_hit_run_inv [OF _ i _ _ this, of op] inv l1 nw1
      have "run_inv cfg (snd (l2_hit cfg (l1_miss cfg s) i op (va AND (push_bit (PAGE_SIZE_BITS cfg) 1 - 1))))"
        by simp
      moreover have "access_counter (snd (l2_hit cfg (l1_miss cfg s) i op
          (va AND (push_bit (PAGE_SIZE_BITS cfg) 1 - 1)))) = access_counter s + 1"
        by (simp add: l2_hit_def Let_def)
      ultimately show ?thesis
        by (simp add: translate_l2_hit [OF None Some] c1)
    next
      case None2: None
      from miss_fill_run_inv [of cfg "l1_miss cfg s" pt va op ?vpn] inv l1 nw
      show ?thesis
        by (simp add: translate_miss [OF None None2] miss_fill_fields c2)
    qed
  qed
qed

lemma step_run_inv:
  assumes "run_inv cfg s" and "0 < TLB_L1_SIZE cfg" and "unat (access_counter s) + 2 < 2 ^ 64"
  shows "run_inv cfg (step cfg s c) \<and>
         unat (access_counter (step cfg s c)) \<le> unat (access_counter s) + 2"
proof (cases c)
  case (Translate va op pa)
  with translate_run_inv [OF assms] show ?thesis by simp
next
  case (Invalidate vpn)
  with invalidate_run_inv [OF assms(1)] show ?thesis by simp
qed

lemma init_run_inv: "run_inv cfg (tlb_init cfg s0)"
proof -
  have "l2_in_l1 (tlb_init cfg s0)"
    by (simp add: tlb_init_def l2_in_l1_def zero_entry_def)
  moreover have "length (tlb_l1 (tlb_init cfg s0)) = TLB_L1_SIZE cfg"
    "length (tlb_l2 (tlb_init cfg s0)) = TLB_L2_SIZE cfg"
    "stamps_below (unat (access_counter (tlb_init cfg s0))) (tlb_l1 (tlb_init cfg s0))"
    "stamps_below (unat (access_counter (tlb_init cfg s0))) (tlb_l2 (tlb_init cfg s0))"
    by (simp_all add: tlb_init_def stamps_below_replicate)
  ultimately show ?thesis
    unfolding run_inv_def by blast
qed

lemma exec_snoc: "exec cfg s (calls @ [c]) = step cfg (exec cfg s calls) c"
  by (simp add: exec_def)

lemma exec_run_inv:
  assumes "0 < TLB_L1_SIZE cfg" and "unat (access_counter s0) + 2 * length calls < 2 ^ 64"
  shows "run_inv cfg (exec cfg (tlb_init cfg s0) calls) \<and>
         unat (access_counter (exec cfg (tlb_init cfg s0) calls)) \<le>
           unat (access_counter s0) + 2 * length calls"
  using assms(2)
proof (induction calls rule: rev_induct)
  case Nil
  show ?case by (simp add: exec_def init_run_inv) (simp add: tlb_init_def)
next
  case (snoc c calls)
  let ?s = "exec cfg (tlb_init cfg s0) calls"
  from snoc have ih: "run_inv cfg ?s"
    "unat (access_counter ?s) \<le> unat (access_counter s0) + 2 * length calls"
    by simp_all
  with snoc.prems have "unat (access_counter ?s) + 2 < 2 ^ 64" by simp
  from step_run_inv [OF ih(1) assms(1) this, of c] ih(2) show ?case
    by (simp add: exec_snoc)
qed

subsection \<open>A hit in L2\<close>

lemma l1_miss_overwrites [simp]: "overwrites_hit (l1_miss cfg s) i op = overwrites_hit s i op"
  by (simp add: overwrites_hit_def find_lru_victim_l1_def)

text \<open>
  In every state, an L2 hit whose demotion does not land on the slot of the hit leaves the
  refreshed entry in that slot, copies it over the L1 victim, and returns its page.
\<close>

lemma l2_hit_unless_overwritten:
  assumes l1: "tlb_l1 s \<noteq> []"
    and hit: "probe s (drop_bit (PAGE_SIZE_BITS cfg) va) = HitL2 i"
    and no: "\<not> overwrites_hit s i op"
  shows "maps_vpn (drop_bit (PAGE_SIZE_BITS cfg) va) (tlb_l2 s ! i)"
    and "tlb_l2 (snd (tlb_translate cfg pt s va op)) ! i =
           touch (access_counter s + 1) op (tlb_l2 s ! i)"
    and "tlb_l1 (snd (tlb_translate cfg pt s va op)) =
           (tlb_l1 s)[find_lru_victim_l1 s := touch (access_counter s + 1) op (tlb_l2 s ! i)]"
    and "find_lru_victim_l1 s < length (tlb_l1 s)"
    and "fst (tlb_translate cfg pt s va op) =
           push_bit (PAGE_SIZE_BITS cfg) (physical_page_number (tlb_l2 s ! i)) OR
             (va AND (push_bit (PAGE_SIZE_BITS cfg) 1 - 1))"
proof -
  let ?vpn = "drop_bit (PAGE_SIZE_BITS cfg) va"
  let ?off = "va AND (push_bit (PAGE_SIZE_BITS cfg) 1 - 1)"
  from hit have l: "tlb_lookup (tlb_l1 s) ?vpn = None" "tlb_lookup (tlb_l2 s) ?vpn = Some i"
    by (simp_all add: probe_cases)
  from tlb_lookup_Some [OF l(2)] show "maps_vpn ?vpn (tlb_l2 s ! i)" by simp
  from tlb_lookup_Some [OF l(2)] have i: "i < length (tlb_l2 (l1_miss cfg s))" by simp
  have t: "tlb_translate cfg pt s va op = l2_hit cfg (l1_miss cfg s) i op ?off"
    using l by (rule translate_l2_hit)
  note k = l2_hit_kept [of i "l1_miss cfg s" op cfg ?off]
  from k(2) i l1 no show "tlb_l1 (snd (tlb_translate cfg pt s va op)) =
      (tlb_l1 s)[find_lru_victim_l1 s := touch (access_counter s + 1) op (tlb_l2 s ! i)]"
    by (simp add: t find_lru_victim_l1_def)
  from k(3) i l1 no show "tlb_l2 (snd (tlb_translate cfg pt s va op)) ! i =
      touch (access_counter s + 1) op (tlb_l2 s ! i)"
    by (simp add: t)
  from k(1) i l1 no show "fst (tlb_translate cfg pt s va op) =
      push_bit (PAGE_SIZE_BITS cfg) (physical_page_number (tlb_l2 s ! i)) OR ?off"
    by (simp add: t)
  from find_lru_victim_less [OF l1] show "find_lru_victim_l1 s < length (tlb_l1 s)"
    by (simp add: find_lru_victim_l1_def)
qed

text \<open>So the page of the hit is then in the L1 victim slot and still in slot \<open>i\<close> of L2.\<close>

lemma l2_hit_promotes:
  assumes "tlb_l1 s \<noteq> []"
    and "probe s (drop_bit (PAGE_SIZE_BITS cfg) va) = HitL2 i"
    and "\<not> overwrites_hit s i op"
    and "s' = snd (tlb_translate cfg pt s va op)"
  shows "maps_vpn (drop_bit (PAGE_SIZE_BITS cfg) va) (tlb_l2 s' ! i) \<and>
         find_lru_victim_l1 s < length (tlb_l1 s') \<and>
         maps_vpn (drop_bit (PAGE_SIZE_BITS cfg) va) (tlb_l1 s' ! find_lru_victim_l1 s)"
  using l2_hit_unless_overwritten(1-4) [OF assms(1-3)] by (simp add: assms(4))

text \<open>
  An L2 hit in a state of a run whose access counter cannot have wrapped: the slot of the
  hit carries the newest stamp, the victim function does not return it, and the second
  scan of \<open>demote_pos\<close> does not run.
\<close>

lemma run_l2_hit:
  assumes sz: "0 < TLB_L1_SIZE cfg"
    and nw: "unat (access_counter s0) + 2 * length calls + 1 < 2 ^ 64"
    and s: "s = exec cfg (tlb_init cfg s0) calls"
    and hit: "probe s (drop_bit (PAGE_SIZE_BITS cfg) va) = HitL2 i"
  shows "tlb_l1 s \<noteq> []" and "i < length (tlb_l2 s)"
    and "maps_vpn (drop_bit (PAGE_SIZE_BITS cfg) va) (tlb_l2 s ! i)"
    and "demote_pos (refreshed_l2 s i op) i \<noteq> i"
    and "tlb_translate cfg pt s va op =
           l2_hit cfg (l1_miss cfg s) i op (va AND (push_bit (PAGE_SIZE_BITS cfg) 1 - 1))"
proof -
  let ?vpn = "drop_bit (PAGE_SIZE_BITS cfg) va"
  from nw have "unat (access_counter s0) + 2 * length calls < 2 ^ 64" by simp
  from exec_run_inv [OF sz this] s
  have inv: "run_inv cfg s"
    and le: "unat (access_counter s) \<le> unat (access_counter s0) + 2 * length calls"
    by simp_all
  from le nw have nw1: "unat (access_counter s) + 1 < 2 ^ 64" by simp
  from hit have l: "tlb_lookup (tlb_l1 s) ?vpn = None" "tlb_lookup (tlb_l2 s) ?vpn = Some i"
    by (simp_all add: probe_cases)
  from tlb_lookup_Some [OF l(2)] show i: "i < length (tlb_l2 s)"
    and m: "maps_vpn ?vpn (tlb_l2 s ! i)"
    by simp_all
  from inv sz show "tlb_l1 s \<noteq> []" by (auto simp: run_inv_def)
  from l2_in_l1_no_l2_only_hit [OF _ l(1)] l(2) inv have "TLB_L2_SIZE cfg \<noteq> 1"
    by (auto simp: run_inv_def)
  with inv i have two: "1 < length (tlb_l2 s)" by (simp add: run_inv_def)
  from inv have sb: "stamps_below (unat (access_counter s)) (tlb_l2 s)" by (simp add: run_inv_def)
  from m have v: "valid (tlb_l2 s ! i)" by (simp add: maps_vpn_def)
  from demote_pos_not_refreshed [OF i v sb nw1 two, of op]
  show "demote_pos (refreshed_l2 s i op) i \<noteq> i" by simp
  show "tlb_translate cfg pt s va op =
      l2_hit cfg (l1_miss cfg s) i op (va AND (push_bit (PAGE_SIZE_BITS cfg) 1 - 1))"
    using l by (rule translate_l2_hit)
qed

lemma no_overwrite_before_wrap:
  assumes "0 < TLB_L1_SIZE cfg"
    and "unat (access_counter s0) + 2 * length calls + 1 < 2 ^ 64"
    and "s = exec cfg (tlb_init cfg s0) calls"
    and "probe s (drop_bit (PAGE_SIZE_BITS cfg) va) = HitL2 i"
  shows "\<not> overwrites_hit s i op"
  using run_l2_hit(4) [OF assms] by (simp add: overwrites_hit_def)

text \<open>
  The second scan moves \<open>l2_pos\<close> only to a slot that is older than slot 0 and all slots
  before it. When slot 0 is both the hit and the victim, no slot is older, and the scan
  returns slot 0: the demotion lands on the hit.
\<close>

lemma rescan_none_older:
  "\<forall>e\<in>set es. \<not> last_access e < oldest_time \<Longrightarrow> rescan j es i l2_pos oldest_time = l2_pos"
  by (induction es arbitrary: j) simp_all

lemma rescan_keeps_slot0:
  assumes ne: "l2 \<noteq> []" and v: "valid (l2 ! 0)" and z: "find_lru_victim l2 = 0"
  shows "demote_pos l2 0 = 0"
proof -
  from find_lru_victim_spec [OF ne] z have "is_lru_choice l2 0" by simp
  with v have m: "\<forall>j\<in>{0..<length l2}. last_access (l2 ! 0) \<le> last_access (l2 ! j)"
    by (auto simp: is_lru_choice_def split: if_splits)
  have "\<not> last_access e < last_access (l2 ! 0)" if "e \<in> set (drop 1 l2)" for e
  proof -
    from that have "e \<in> set l2" by (rule in_set_dropD)
    then obtain j where "j < length l2" "l2 ! j = e" by (auto simp: in_set_conv_nth)
    with m show ?thesis by (auto simp: not_less)
  qed
  then have "rescan 1 (drop 1 l2) 0 0 (last_access (l2 ! 0)) = 0"
    by (intro rescan_none_older) blast
  with z show ?thesis by (simp add: demote_pos_def Let_def)
qed

subsection \<open>The run up to the wrap of the access counter\<close>

text \<open>
  A lookup depends only on the \<open>valid\<close> flags and page numbers, so repeated reads of a page
  that hits in L1 change nothing but the time stamp of its slot and the access counter.
\<close>

lemma first_index_map_cong:
  "map P xs = map P ys \<Longrightarrow> first_index P n xs = first_index P n ys"
proof (induction xs arbitrary: ys n)
  case Nil
  then show ?case by simp
next
  case (Cons x xs)
  then obtain y ys' where "ys = y # ys'" by (cases ys) auto
  with Cons show ?case by auto
qed

lemma tlb_lookup_update_same:
  assumes "i < length tlb" and "\<And>v. maps_vpn v e = maps_vpn v (tlb ! i)"
  shows "tlb_lookup (tlb[i := e]) vpn = tlb_lookup tlb vpn"
  unfolding tlb_lookup_def
  by (rule first_index_map_cong) (simp add: map_update assms list_update_same_conv)

lemma exec_Cons: "exec cfg s (c # calls) = exec cfg (step cfg s c) calls"
  by (simp add: exec_def)

lemma exec_append: "exec cfg s (xs @ ys) = exec cfg (exec cfg s xs) ys"
  by (simp add: exec_def)

lemma l1_hit_repeat:
  assumes "tlb_lookup (tlb_l1 s) (drop_bit (PAGE_SIZE_BITS cfg) va) = Some i"
  shows "tlb_l1 (exec cfg s (replicate (Suc k) (Translate va OP_READ pa))) =
           (tlb_l1 s)[i := (tlb_l1 s ! i)\<lparr>last_access := access_counter s + of_nat (Suc k)\<rparr>] \<and>
         tlb_l2 (exec cfg s (replicate (Suc k) (Translate va OP_READ pa))) = tlb_l2 s \<and>
         access_counter (exec cfg s (replicate (Suc k) (Translate va OP_READ pa))) =
           access_counter s + of_nat (Suc k)"
  using assms
proof (induction k arbitrary: s)
  case 0
  then show ?case
    by (simp add: exec_def translate_l1_hit l1_hit_fields touch_def)
next
  case (Suc k)
  let ?c = "Translate va OP_READ pa"
  let ?s1 = "step cfg s ?c"
  from tlb_lookup_Some [OF Suc.prems] have i: "i < length (tlb_l1 s)" by simp
  have f: "tlb_l1 ?s1 = (tlb_l1 s)[i := (tlb_l1 s ! i)\<lparr>last_access := access_counter s + 1\<rparr>]"
    "tlb_l2 ?s1 = tlb_l2 s" "access_counter ?s1 = access_counter s + 1"
    using Suc.prems by (simp_all add: translate_l1_hit l1_hit_fields touch_def)
  have "tlb_lookup (tlb_l1 ?s1) (drop_bit (PAGE_SIZE_BITS cfg) va) = Some i"
    unfolding f(1) using Suc.prems i
    by (subst tlb_lookup_update_same) (simp_all add: maps_vpn_def)
  from Suc.IH [OF this] i show ?case
    by (simp add: exec_Cons f add.assoc del: step.simps)
qed

lemma four_fills:
  "tlb_l1 (exec example_cfg (tlb_init example_cfg (boot example_cfg))
     [Translate 0x1000 OP_READ 0xA000, Translate 0x2000 OP_WRITE 0xB000,
      Translate 0x3000 OP_WRITE 0xC000, Translate 0x4000 OP_WRITE 0xD000]) =
   [\<lparr>valid = True, dirty = True, last_access = 6, virtual_page_number = 3,
      physical_page_number = 0xC\<rparr>,
    \<lparr>valid = True, dirty = True, last_access = 8, virtual_page_number = 4,
      physical_page_number = 0xD\<rparr>]"
  "tlb_l2 (exec example_cfg (tlb_init example_cfg (boot example_cfg))
     [Translate 0x1000 OP_READ 0xA000, Translate 0x2000 OP_WRITE 0xB000,
      Translate 0x3000 OP_WRITE 0xC000, Translate 0x4000 OP_WRITE 0xD000]) =
   [\<lparr>valid = True, dirty = False, last_access = 1, virtual_page_number = 1,
      physical_page_number = 0xA\<rparr>,
    \<lparr>valid = True, dirty = True, last_access = 3, virtual_page_number = 2,
      physical_page_number = 0xB\<rparr>,
    \<lparr>valid = True, dirty = True, last_access = 5, virtual_page_number = 3,
      physical_page_number = 0xC\<rparr>,
    \<lparr>valid = True, dirty = True, last_access = 7, virtual_page_number = 4,
      physical_page_number = 0xD\<rparr>]"
  "access_counter (exec example_cfg (tlb_init example_cfg (boot example_cfg))
     [Translate 0x1000 OP_READ 0xA000, Translate 0x2000 OP_WRITE 0xB000,
      Translate 0x3000 OP_WRITE 0xC000, Translate 0x4000 OP_WRITE 0xD000]) = 8"
  by code_simp+


lemma near_wrap_fields:
  "tlb_l1 near_wrap =
   [\<lparr>valid = True, dirty = True, last_access = - 1, virtual_page_number = 3,
      physical_page_number = 0xC\<rparr>,
    \<lparr>valid = True, dirty = True, last_access = 8, virtual_page_number = 4,
      physical_page_number = 0xD\<rparr>]"
  "tlb_l2 near_wrap =
   [\<lparr>valid = True, dirty = False, last_access = 1, virtual_page_number = 1,
      physical_page_number = 0xA\<rparr>,
    \<lparr>valid = True, dirty = True, last_access = 3, virtual_page_number = 2,
      physical_page_number = 0xB\<rparr>,
    \<lparr>valid = True, dirty = True, last_access = 5, virtual_page_number = 3,
      physical_page_number = 0xC\<rparr>,
    \<lparr>valid = True, dirty = True, last_access = 7, virtual_page_number = 4,
      physical_page_number = 0xD\<rparr>]"
  "access_counter near_wrap = - 1"
proof -
  let ?s = "exec example_cfg (tlb_init example_cfg (boot example_cfg))
     [Translate 0x1000 OP_READ 0xA000, Translate 0x2000 OP_WRITE 0xB000,
      Translate 0x3000 OP_WRITE 0xC000, Translate 0x4000 OP_WRITE 0xD000]"
  have n: "(2 :: nat) ^ 64 - 9 = Suc (2 ^ 64 - 10)" by simp
  have nw: "near_wrap = exec example_cfg ?s (replicate (Suc (2 ^ 64 - 10)) (Translate 0x3000 OP_READ 0xC000))"
    unfolding near_wrap_def wrap_calls_def exec_append n ..
  have l: "tlb_lookup (tlb_l1 ?s) (drop_bit (PAGE_SIZE_BITS example_cfg) 0x3000) = Some 0"
    by code_simp
  note r = l1_hit_repeat [OF l, of "2 ^ 64 - 10" "0xC000", folded nw]
  from r show "tlb_l1 near_wrap =
   [\<lparr>valid = True, dirty = True, last_access = - 1, virtual_page_number = 3,
      physical_page_number = 0xC\<rparr>,
    \<lparr>valid = True, dirty = True, last_access = 8, virtual_page_number = 4,
      physical_page_number = 0xD\<rparr>]"
    by (simp add: four_fills)
  from r show "tlb_l2 near_wrap =
   [\<lparr>valid = True, dirty = False, last_access = 1, virtual_page_number = 1,
      physical_page_number = 0xA\<rparr>,
    \<lparr>valid = True, dirty = True, last_access = 3, virtual_page_number = 2,
      physical_page_number = 0xB\<rparr>,
    \<lparr>valid = True, dirty = True, last_access = 5, virtual_page_number = 3,
      physical_page_number = 0xC\<rparr>,
    \<lparr>valid = True, dirty = True, last_access = 7, virtual_page_number = 4,
      physical_page_number = 0xD\<rparr>]"
    by (simp add: four_fills)
  from r show "access_counter near_wrap = - 1"
    by (simp add: four_fills)
qed

lemma near_wrap_probe: "probe near_wrap (drop_bit (PAGE_SIZE_BITS example_cfg) 0x1000) = HitL2 0"
  by (simp add: probe_def tlb_lookup_def maps_vpn_def near_wrap_fields example_cfg_def
      drop_bit_eq_div)

lemma near_wrap_victims:
  "find_lru_victim_l1 near_wrap = 1"
  "valid (tlb_l1 near_wrap ! 1)" "dirty (tlb_l1 near_wrap ! 1)"
  "find_lru_victim (refreshed_l2 near_wrap 0 op) = 0"
  by (simp_all add: near_wrap_fields find_lru_victim_l1_def find_lru_victim_def
      refreshed_l2_def touch_def)

lemma near_wrap_overwrites: "overwrites_hit near_wrap 0 op"
proof -
  have "demote_pos (refreshed_l2 near_wrap 0 op) 0 = 0"
    by (rule rescan_keeps_slot0)
      (simp_all add: near_wrap_victims, simp_all add: near_wrap_fields refreshed_l2_def touch_def)
  with near_wrap_victims show ?thesis by (simp add: overwrites_hit_def)
qed

subsection \<open>The promotion after a hit in L2\<close>

text \<open>
  C6, that after a miss in L1 and a hit in slot \<open>i\<close> of L2 the slot that receives a valid and
  dirty L1 victim is not \<open>i\<close> and the hit page is afterwards in a valid L1 entry, in every
  state reached from \<open>tlb_init\<close>, fails on the code. At the end of the long run the access
  counter holds \<open>2^64 - 1\<close>. A read of page 1 misses L1 and hits slot 0 of L2, whose
  \<open>last_access\<close> becomes 0, the smallest of L2; the L1 victim (page 4) is valid and dirty;
  the L2 victim is slot 0, the second scan returns slot 0 again, and the victim is copied
  over slot 0, which is then copied back over the L1 victim. Page 1 is then in no valid
  entry of L1.
\<close>

theorem wrapped_hit_destroyed:
  "probe near_wrap (drop_bit (PAGE_SIZE_BITS example_cfg) 0x1000) = HitL2 0 \<and>
   valid (tlb_l1 near_wrap ! find_lru_victim_l1 near_wrap) \<and>
   dirty (tlb_l1 near_wrap ! find_lru_victim_l1 near_wrap) \<and>
   find_lru_victim (refreshed_l2 near_wrap 0 OP_READ) = 0 \<and>
   demote_pos (refreshed_l2 near_wrap 0 OP_READ) 0 = 0 \<and>
   tlb_lookup
     (tlb_l1 (snd (tlb_translate example_cfg (\<lambda>_ _. 0xA000) near_wrap 0x1000 OP_READ))) 1 = None"
proof -
  note defs = near_wrap_fields example_cfg_def tlb_lookup_def maps_vpn_def drop_bit_eq_div
    find_lru_victim_def refreshed_l2_def touch_def demote_pos_def
  have "demote_pos (refreshed_l2 near_wrap 0 OP_READ) 0 = 0"
    using near_wrap_overwrites [of OP_READ] by (simp add: overwrites_hit_def)
  moreover have "tlb_lookup
     (tlb_l1 (snd (tlb_translate example_cfg (\<lambda>_ _. 0xA000) near_wrap 0x1000 OP_READ))) 1 = None"
    by (simp add: tlb_translate_def l2_hit_def l1_miss_def Let_def defs)
  ultimately show ?thesis
    using near_wrap_probe near_wrap_victims by simp
qed

subsection \<open>The address returned at a hit\<close>

text \<open>
  A hit in L1 returns the page of the slot it found, in every state; so does a hit in L2
  whose demotion does not land on the slot of the hit.
\<close>

lemma l1_hit_result:
  assumes "probe s (drop_bit (PAGE_SIZE_BITS cfg) va) = HitL1 i"
  shows "maps_vpn (drop_bit (PAGE_SIZE_BITS cfg) va) (tlb_l1 s ! i) \<and>
         fst (tlb_translate cfg pt s va op) =
           push_bit (PAGE_SIZE_BITS cfg) (physical_page_number (tlb_l1 s ! i)) OR
             (va AND (push_bit (PAGE_SIZE_BITS cfg) 1 - 1))"
proof -
  from assms have l: "tlb_lookup (tlb_l1 s) (drop_bit (PAGE_SIZE_BITS cfg) va) = Some i"
    by (simp add: probe_cases)
  from tlb_lookup_Some [OF l] show ?thesis
    by (simp add: translate_l1_hit [OF l] l1_hit_def Let_def)
qed

lemma l2_hit_result:
  assumes "tlb_l1 s \<noteq> []"
    and "probe s (drop_bit (PAGE_SIZE_BITS cfg) va) = HitL2 i"
    and "\<not> overwrites_hit s i op"
  shows "maps_vpn (drop_bit (PAGE_SIZE_BITS cfg) va) (tlb_l2 s ! i) \<and>
         fst (tlb_translate cfg pt s va op) =
           push_bit (PAGE_SIZE_BITS cfg) (physical_page_number (tlb_l2 s ! i)) OR
             (va AND (push_bit (PAGE_SIZE_BITS cfg) 1 - 1))"
  using l2_hit_unless_overwritten(1,5) [OF assms] by simp

text \<open>
  C8, that a hit returns the physical page number of the entry that maps the page, shifted
  by the page bits and or-ed with the page offset, fails on the code for a hit in L2, at
  the same call as C6: the hit is in slot 0 of L2, which holds physical page \<open>0xA\<close> for
  page 1, and the call returns the address of physical page \<open>0xD\<close>, the page of the demoted
  L1 victim that has overwritten the slot before the result is read.
\<close>

theorem wrapped_hit_wrong_page:
  "probe near_wrap (drop_bit (PAGE_SIZE_BITS example_cfg) 0x1abc) = HitL2 0 \<and>
   maps_vpn (drop_bit (PAGE_SIZE_BITS example_cfg) 0x1abc) (tlb_l2 near_wrap ! 0) \<and>
   push_bit (PAGE_SIZE_BITS example_cfg) (physical_page_number (tlb_l2 near_wrap ! 0)) OR
     (0x1abc AND (push_bit (PAGE_SIZE_BITS example_cfg) 1 - 1)) = 0xAabc \<and>
   fst (tlb_translate example_cfg (\<lambda>_ _. 0xA000) near_wrap 0x1abc OP_READ) = 0xDabc"
proof -
  note defs = near_wrap_fields example_cfg_def tlb_lookup_def maps_vpn_def drop_bit_eq_div
    find_lru_victim_def refreshed_l2_def touch_def demote_pos_def
  have "probe near_wrap (drop_bit (PAGE_SIZE_BITS example_cfg) 0x1abc) = HitL2 0"
    by (simp add: probe_def defs)
  moreover
  have "maps_vpn (drop_bit (PAGE_SIZE_BITS example_cfg) 0x1abc) (tlb_l2 near_wrap ! 0)"
    by (simp add: defs)
  moreover
  have "push_bit (PAGE_SIZE_BITS example_cfg) (physical_page_number (tlb_l2 near_wrap ! 0)) OR
     (0x1abc AND (push_bit (PAGE_SIZE_BITS example_cfg) 1 - 1)) = 0xAabc"
    by (simp add: defs)
  moreover
  have "fst (tlb_translate example_cfg (\<lambda>_ _. 0xA000) near_wrap 0x1abc OP_READ) = 0xDabc"
    by (simp add: tlb_translate_def l2_hit_def l1_miss_def Let_def defs)
  ultimately show ?thesis by simp
qed

subsection \<open>Dirty flags at a hit\<close>

lemma tlb_lookup_SomeI:
  assumes k: "k < length tlb" and m: "maps_vpn v (tlb ! k)"
    and b: "\<forall>j<k. \<not> maps_vpn v (tlb ! j)"
  shows "tlb_lookup tlb v = Some k"
proof (cases "tlb_lookup tlb v")
  case None
  with k m show ?thesis by (auto simp: tlb_lookup_None)
next
  case (Some k')
  from tlb_lookup_Some [OF Some] have "maps_vpn v (tlb ! k')" "\<forall>j<k'. \<not> maps_vpn v (tlb ! j)"
    by simp_all
  with m b have "k' = k" by (meson nat_neq_iff)
  with Some show ?thesis by simp
qed

lemma tlb_lookup_update_new:
  assumes n: "tlb_lookup tlb v = None" and k: "k < length tlb" and m: "maps_vpn v e"
  shows "tlb_lookup (tlb[k := e]) v = Some k"
proof (rule tlb_lookup_SomeI)
  show "k < length (tlb[k := e])" using k by simp
  show "maps_vpn v (tlb[k := e] ! k)" using k m by simp
  show "\<forall>j<k. \<not> maps_vpn v (tlb[k := e] ! j)"
    using n k by (auto simp: tlb_lookup_None)
qed

text \<open>
  A hit in L1 touches the slot it found, and the page hits the same slot again.
\<close>

lemma l1_hit_entry:
  assumes "probe s (drop_bit (PAGE_SIZE_BITS cfg) va) = HitL1 i"
  shows "maps_vpn (drop_bit (PAGE_SIZE_BITS cfg) va) (tlb_l1 s ! i)"
    and "tlb_l1 (snd (tlb_translate cfg pt s va op)) ! i =
           touch (access_counter s + 1) op (tlb_l1 s ! i)"
    and "tlb_l2 (snd (tlb_translate cfg pt s va op)) = tlb_l2 s"
    and "probe (snd (tlb_translate cfg pt s va op)) (drop_bit (PAGE_SIZE_BITS cfg) va) = HitL1 i"
proof -
  let ?vpn = "drop_bit (PAGE_SIZE_BITS cfg) va"
  from assms have l: "tlb_lookup (tlb_l1 s) ?vpn = Some i" by (simp add: probe_cases)
  from tlb_lookup_Some [OF l] have i: "i < length (tlb_l1 s)" by simp
  from tlb_lookup_Some [OF l] show "maps_vpn ?vpn (tlb_l1 s ! i)" by simp
  note t = translate_l1_hit [OF l]
  from i show "tlb_l1 (snd (tlb_translate cfg pt s va op)) ! i =
      touch (access_counter s + 1) op (tlb_l1 s ! i)"
    by (simp add: t l1_hit_fields)
  show "tlb_l2 (snd (tlb_translate cfg pt s va op)) = tlb_l2 s"
    by (simp add: t l1_hit_fields)
  have "tlb_lookup (tlb_l1 (snd (tlb_translate cfg pt s va op))) ?vpn = Some i"
    using i l by (simp add: t l1_hit_fields tlb_lookup_update_same)
  then show "probe (snd (tlb_translate cfg pt s va op)) ?vpn = HitL1 i"
    by (simp add: probe_cases)
qed

text \<open>
  A write that hits in L1 leaves the entry of the page dirty, and a following read of the
  page hits that entry and leaves it dirty: in every state.
\<close>

lemma write_hit_l1:
  assumes hit: "probe s (drop_bit (PAGE_SIZE_BITS cfg) va) = HitL1 i"
    and same: "drop_bit (PAGE_SIZE_BITS cfg) va' = drop_bit (PAGE_SIZE_BITS cfg) va"
    and s1: "s1 = snd (tlb_translate cfg pt s va OP_WRITE)"
    and s2: "s2 = snd (tlb_translate cfg pt' s1 va' OP_READ)"
  shows "maps_vpn (drop_bit (PAGE_SIZE_BITS cfg) va) (tlb_l1 s1 ! i) \<and> dirty (tlb_l1 s1 ! i) \<and>
         probe s1 (drop_bit (PAGE_SIZE_BITS cfg) va') = HitL1 i \<and>
         maps_vpn (drop_bit (PAGE_SIZE_BITS cfg) va) (tlb_l1 s2 ! i) \<and> dirty (tlb_l1 s2 ! i)"
proof -
  let ?vpn = "drop_bit (PAGE_SIZE_BITS cfg) va"
  have a: "maps_vpn ?vpn (tlb_l1 s ! i)"
    "tlb_l1 s1 ! i = touch (access_counter s + 1) OP_WRITE (tlb_l1 s ! i)"
    "probe s1 ?vpn = HitL1 i"
    unfolding s1 by (rule l1_hit_entry [OF hit])+
  from a(3) same have h1: "probe s1 (drop_bit (PAGE_SIZE_BITS cfg) va') = HitL1 i" by simp
  have b: "tlb_l1 s2 ! i = touch (access_counter s1 + 1) OP_READ (tlb_l1 s1 ! i)"
    unfolding s2 by (rule l1_hit_entry [OF h1])
  from a b h1 show ?thesis by simp
qed

text \<open>
  So does a write that hits in L2, where the demotion does not land on the slot of the
  hit: the entry in L2 and its copy in L1 are dirty, a following read of the page hits the
  copy in L1, and both stay dirty.
\<close>

lemma write_hit_l2:
  assumes l1: "tlb_l1 s \<noteq> []"
    and hit: "probe s (drop_bit (PAGE_SIZE_BITS cfg) va) = HitL2 i"
    and no: "\<not> overwrites_hit s i OP_WRITE"
    and same: "drop_bit (PAGE_SIZE_BITS cfg) va' = drop_bit (PAGE_SIZE_BITS cfg) va"
    and s1: "s1 = snd (tlb_translate cfg pt s va OP_WRITE)"
    and s2: "s2 = snd (tlb_translate cfg pt' s1 va' OP_READ)"
  shows "maps_vpn (drop_bit (PAGE_SIZE_BITS cfg) va) (tlb_l2 s1 ! i) \<and> dirty (tlb_l2 s1 ! i) \<and>
         maps_vpn (drop_bit (PAGE_SIZE_BITS cfg) va) (tlb_l1 s1 ! find_lru_victim_l1 s) \<and>
         dirty (tlb_l1 s1 ! find_lru_victim_l1 s) \<and>
         probe s1 (drop_bit (PAGE_SIZE_BITS cfg) va') = HitL1 (find_lru_victim_l1 s) \<and>
         maps_vpn (drop_bit (PAGE_SIZE_BITS cfg) va) (tlb_l1 s2 ! find_lru_victim_l1 s) \<and>
         dirty (tlb_l1 s2 ! find_lru_victim_l1 s) \<and>
         tlb_l2 s2 = tlb_l2 s1"
proof -
  let ?vpn = "drop_bit (PAGE_SIZE_BITS cfg) va"
  let ?k = "find_lru_victim_l1 s"
  have a: "maps_vpn ?vpn (tlb_l2 s ! i)"
    "tlb_l2 s1 ! i = touch (access_counter s + 1) OP_WRITE (tlb_l2 s ! i)"
    "tlb_l1 s1 = (tlb_l1 s)[?k := touch (access_counter s + 1) OP_WRITE (tlb_l2 s ! i)]"
    "?k < length (tlb_l1 s)"
    unfolding s1 by (rule l2_hit_unless_overwritten [OF l1 hit no])+
  from hit have n: "tlb_lookup (tlb_l1 s) ?vpn = None" by (simp add: probe_cases)
  have "tlb_lookup (tlb_l1 s1) ?vpn = Some ?k"
    unfolding a(3) using n a(4) by (rule tlb_lookup_update_new) (simp add: a(1))
  with same have h1: "probe s1 (drop_bit (PAGE_SIZE_BITS cfg) va') = HitL1 ?k"
    by (simp add: probe_cases)
  have b: "tlb_l1 s2 ! ?k = touch (access_counter s1 + 1) OP_READ (tlb_l1 s1 ! ?k)"
    "tlb_l2 s2 = tlb_l2 s1"
    unfolding s2 by (rule l1_hit_entry [OF h1])+
  have c: "tlb_l1 s1 ! ?k = touch (access_counter s + 1) OP_WRITE (tlb_l2 s ! i)"
    using a(4) by (simp add: a(3))
  from a(1,2) b c h1 show ?thesis by simp
qed


subsection \<open>Duplicates\<close>

text \<open>
  L1 never holds a page twice: each branch of \<open>tlb_translate\<close> writes a page into L1
  only after the L1 lookup has missed it. So \<open>tlb_invalidate\<close> always clears a page from L1.
\<close>

lemma unique_vpns_update_new:
  assumes u: "unique_vpns tlb" and n: "\<forall>e\<in>set tlb. \<not> maps_vpn v e" and m: "maps_vpn v e'"
  shows "unique_vpns (tlb[k := e'])"
  unfolding unique_vpns_def
proof (intro ballI impI)
  fix i j
  assume i: "i \<in> {0..<length (tlb[k := e'])}" and j: "j \<in> {0..<length (tlb[k := e'])}"
    and a: "valid (tlb[k := e'] ! i) \<and> valid (tlb[k := e'] ! j) \<and>
      virtual_page_number (tlb[k := e'] ! i) = virtual_page_number (tlb[k := e'] ! j)"
  from n have no: "\<And>x. x < length tlb \<Longrightarrow> valid (tlb ! x) \<Longrightarrow> virtual_page_number (tlb ! x) \<noteq> v"
    by (auto simp: maps_vpn_def)
  consider (both) "i = k" "j = k" | (left) "i = k" "j \<noteq> k" | (right) "i \<noteq> k" "j = k"
    | (neither) "i \<noteq> k" "j \<noteq> k"
    by blast
  then show "i = j"
  proof cases
    case both
    then show ?thesis by simp
  next
    case left
    with i j a m no [of j] show ?thesis by (auto simp: maps_vpn_def)
  next
    case right
    with i j a m no [of i] show ?thesis by (auto simp: maps_vpn_def)
  next
    case neither
    with i j a u show ?thesis by (auto simp: unique_vpns_def)
  qed
qed

lemma unique_vpns_update_same:
  assumes u: "unique_vpns tlb" and k: "k < length tlb"
    and e: "valid e' \<longrightarrow> valid (tlb ! k) \<and> virtual_page_number e' = virtual_page_number (tlb ! k)"
  shows "unique_vpns (tlb[k := e'])"
  unfolding unique_vpns_def
proof (intro ballI impI)
  fix i j
  assume i: "i \<in> {0..<length (tlb[k := e'])}" and j: "j \<in> {0..<length (tlb[k := e'])}"
    and a: "valid (tlb[k := e'] ! i) \<and> valid (tlb[k := e'] ! j) \<and>
      virtual_page_number (tlb[k := e'] ! i) = virtual_page_number (tlb[k := e'] ! j)"
  then have "valid (tlb ! i) \<and> valid (tlb ! j) \<and>
      virtual_page_number (tlb ! i) = virtual_page_number (tlb ! j)"
    using e k by (auto simp: nth_list_update split: if_splits)
  with u i j show "i = j" by (simp add: unique_vpns_def)
qed

lemma unique_vpns_invalidated:
  "unique_vpns tlb \<Longrightarrow>
     unique_vpns (case tlb_lookup tlb vpn of None \<Rightarrow> tlb
                  | Some i \<Rightarrow> tlb[i := (tlb ! i)\<lparr>valid := False\<rparr>])"
  by (auto split: option.splits dest!: tlb_lookup_Some intro!: unique_vpns_update_same)

lemma invalidated_lookup:
  assumes "unique_vpns tlb"
  shows "tlb_lookup (case tlb_lookup tlb vpn of None \<Rightarrow> tlb
                  | Some i \<Rightarrow> tlb[i := (tlb ! i)\<lparr>valid := False\<rparr>]) vpn = None"
proof (cases "tlb_lookup tlb vpn")
  case None
  then show ?thesis by simp
next
  case (Some i)
  from tlb_lookup_Some [OF Some] have i: "i < length tlb" "maps_vpn vpn (tlb ! i)" by simp_all
  have "\<not> maps_vpn vpn (tlb[i := (tlb ! i)\<lparr>valid := False\<rparr>] ! j)" if "j < length tlb" for j
  proof (cases "j = i")
    case True
    with i show ?thesis by (simp add: maps_vpn_def)
  next
    case False
    with assms i that show ?thesis by (auto simp: unique_vpns_def maps_vpn_def)
  qed
  then have "\<forall>e\<in>set (tlb[i := (tlb ! i)\<lparr>valid := False\<rparr>]). \<not> maps_vpn vpn e"
    by (auto simp: in_set_conv_nth)
  with Some show ?thesis by (simp add: tlb_lookup_None)
qed

lemma l1_unique_invalidate:
  "unique_vpns (tlb_l1 s) \<Longrightarrow> unique_vpns (tlb_l1 (tlb_invalidate cfg s vpn))"
  by (simp add: invalidate_l1 unique_vpns_invalidated)

lemma l1_unique_l2_hit:
  assumes u: "unique_vpns (tlb_l1 s)" and n: "tlb_lookup (tlb_l1 s) vpn = None"
    and l: "tlb_lookup (tlb_l2 s) vpn = Some i"
  shows "unique_vpns (tlb_l1 (snd (l2_hit cfg s i op off)))"
proof -
  define l2a where "l2a = refreshed_l2 s i op"
  define l1_pos where "l1_pos = find_lru_victim (tlb_l1 s)"
  define victim where "victim = tlb_l1 s ! l1_pos"
  define l2b where "l2b = (if valid victim \<and> dirty victim
    then l2a[demote_pos l2a i := victim] else l2a)"
  have r: "tlb_l1 (snd (l2_hit cfg s i op off)) = (tlb_l1 s)[l1_pos := l2b ! i]"
    by (simp add: l2_hit_def Let_def l2b_def victim_def l2a_def l1_pos_def)
  from tlb_lookup_Some [OF l] have i: "i < length (tlb_l2 s)" "maps_vpn vpn (tlb_l2 s ! i)"
    by simp_all
  then have a: "maps_vpn vpn (l2a ! i)" "i < length l2a"
    by (simp_all add: l2a_def refreshed_l2_nth)
  have "l2b ! i = victim \<or> maps_vpn vpn (l2b ! i)"
    using a by (cases "demote_pos l2a i = i") (auto simp: l2b_def)
  then show ?thesis
  proof
    assume "l2b ! i = victim"
    then show ?thesis by (simp add: r victim_def u)
  next
    assume "maps_vpn vpn (l2b ! i)"
    with u n show ?thesis
      unfolding r by (intro unique_vpns_update_new [where v = vpn]) (simp_all add: tlb_lookup_None)
  qed
qed

lemma l1_unique_translate:
  assumes "unique_vpns (tlb_l1 s)"
  shows "unique_vpns (tlb_l1 (snd (tlb_translate cfg pt s va op)))"
proof -
  let ?vpn = "drop_bit (PAGE_SIZE_BITS cfg) va"
  show ?thesis
  proof (cases "tlb_lookup (tlb_l1 s) ?vpn")
    case (Some i)
    from tlb_lookup_Some [OF Some] have "i < length (tlb_l1 s)" by simp
    with assms show ?thesis
      by (simp add: translate_l1_hit [OF Some] l1_hit_fields unique_vpns_update_same)
  next
    case None
    show ?thesis
    proof (cases "tlb_lookup (tlb_l2 s) ?vpn")
      case (Some i)
      from l1_unique_l2_hit [of "l1_miss cfg s" ?vpn i] assms None Some show ?thesis
        by (simp add: translate_l2_hit [OF None Some])
    next
      case None2: None
      from assms None show ?thesis
        unfolding translate_miss [OF None None2] miss_fill_fields
        by (intro unique_vpns_update_new [where v = ?vpn])
          (simp_all add: tlb_lookup_None maps_vpn_def)
    qed
  qed
qed

lemma l1_unique_run: "unique_vpns (tlb_l1 (exec cfg (tlb_init cfg s0) calls))"
proof (induction calls rule: rev_induct)
  case Nil
  show ?case by (simp add: exec_def tlb_init_def unique_vpns_def zero_entry_def)
next
  case (snoc c calls)
  then show ?case
    by (cases c) (simp_all add: exec_snoc l1_unique_translate l1_unique_invalidate)
qed

lemma invalidate_clears_l1:
  "tlb_lookup (tlb_l1 (tlb_invalidate cfg (exec cfg (tlb_init cfg s0) calls) vpn)) vpn = None"
  unfolding invalidate_l1 using l1_unique_run by (rule invalidated_lookup)

text \<open>
  C1, that in every state reached from \<open>tlb_init\<close> each level has at most one valid
  entry for a virtual page number, fails on the code for L2. After the three fills, page 2
  is dirty in slot 1 of L1 and also sits in slot 1 of L2. A read of page 1 then hits slot 0 of L2; the L1 victim is the entry
  of page 2, and the demotion copies it into the free slot 3 of L2: slots 1 and 3 of L2 are
  both valid for page 2.
\<close>

theorem demotion_duplicates_l2:
  "maps_vpn 2 (tlb_l2 (step example_cfg three_fills (Translate 0x1000 OP_READ 0xA000)) ! 1) \<and>
   maps_vpn 2 (tlb_l2 (step example_cfg three_fills (Translate 0x1000 OP_READ 0xA000)) ! 3) \<and>
   length (tlb_l2 (step example_cfg three_fills (Translate 0x1000 OP_READ 0xA000))) = 4"
  by code_simp

text \<open>
  C2, that after \<open>tlb_invalidate\<close> no valid entry of either level maps the page, fails on
  the code. In the state above, \<open>tlb_invalidate\<close> for page 2 stops at slot 1 of L2 and
  returns with slot 3 of L2 still valid for page 2, so the next translation of the page
  hits that slot.
\<close>

theorem invalidate_leaves_duplicate:
  "maps_vpn 2
     (tlb_l2 (tlb_invalidate example_cfg
        (step example_cfg three_fills (Translate 0x1000 OP_READ 0xA000)) 2) ! 3) \<and>
   probe (tlb_invalidate example_cfg
        (step example_cfg three_fills (Translate 0x1000 OP_READ 0xA000)) 2) 2 = HitL2 3"
  by code_simp

end
